theory Spec2Isabelle
  imports Main
begin

section \<open>JavaScript values\<close>

text \<open>
  A matched Target, a Key and every argument recorded by the forwarding reference is a
  JavaScript value.  Tree nodes are references into the document: \<open>Doc n\<close> is a node of
  the live page, \<open>Inert n\<close> is a node made by \<open>document.createElement\<close>.  \<open>VProxy\<close> is
  the forwarding reference of the handle that owns the log in which it is recorded (the
  receiver of a method called through \<open>current\<close>).  Numbers are integers plus \<open>NaN\<close>.
\<close>

datatype node_ref = Doc nat | Inert nat

datatype jsval =
    VUndefined | VNull | VBool bool | VNum int | VNaN | VStr string
  | VNode node_ref | VObj nat | VProxy | VArr "jsval list"

datatype error = TypeError string | NotFoundError

fun truthy :: "jsval \<Rightarrow> bool" where
  "truthy VUndefined = False"
| "truthy VNull = False"
| "truthy (VBool b) = b"
| "truthy (VNum n) = (n \<noteq> 0)"
| "truthy VNaN = False"
| "truthy (VStr s) = (s \<noteq> [])"
| "truthy (VNode n) = True"
| "truthy (VObj n) = True"
| "truthy VProxy = True"
| "truthy (VArr xs) = True"

text \<open>lodash \<open>isNil\<close>: \<open>value == null\<close>.\<close>

definition isNil :: "jsval \<Rightarrow> bool" where
  "isNil v = (v = VUndefined \<or> v = VNull)"

text \<open>\<open>v instanceof Node\<close>\<close>

fun instanceofNode :: "jsval \<Rightarrow> bool" where
  "instanceofNode (VNode n) = True"
| "instanceofNode v = False"

text \<open>\<open>xs[i]\<close> on a JavaScript array: \<open>undefined\<close> out of range.\<close>

definition at :: "jsval list \<Rightarrow> nat \<Rightarrow> jsval" where
  "at xs i = (if i < length xs then xs ! i else VUndefined)"

text \<open>
  \<open>defaultEqualityComparer\<close>: \<open>a === b\<close>; \<open>NaN\<close> is not equal to itself.  Objects are
  told apart by their number; an array is identified with its contents.
\<close>

definition defaultEqualityComparer :: "jsval \<Rightarrow> jsval \<Rightarrow> bool" where
  "defaultEqualityComparer a b = (a = b \<and> a \<noteq> VNaN)"

section \<open>The lodash functions used by the watcher\<close>

text \<open>
  \<open>differenceWith\<close>, \<open>intersectionWith\<close> and \<open>uniqWith\<close> are imported from lodash-es
  (4.17); with a comparator they run \<open>baseDifference\<close>, \<open>baseIntersection\<close> and
  \<open>baseUniq\<close> over \<open>arrayIncludesWith\<close>.  \<open>baseIntersection\<close> stops as soon as the result
  has as many entries as the shortest argument array.
\<close>

definition arrayIncludesWith :: "'a list \<Rightarrow> 'a \<Rightarrow> ('a \<Rightarrow> 'a \<Rightarrow> bool) \<Rightarrow> bool" where
  "arrayIncludesWith array target comparator = list_ex (\<lambda>v. comparator target v) array"

definition differenceWith :: "'a list \<Rightarrow> 'a list \<Rightarrow> ('a \<Rightarrow> 'a \<Rightarrow> bool) \<Rightarrow> 'a list" where
  "differenceWith array values comparator =
     filter (\<lambda>v. \<not> arrayIncludesWith values v comparator) array"

fun baseIntersection ::
  "nat \<Rightarrow> 'a list \<Rightarrow> ('a \<Rightarrow> 'a \<Rightarrow> bool) \<Rightarrow> 'a list \<Rightarrow> 'a list \<Rightarrow> 'a list" where
  "baseIntersection maxLength other comparator [] result = result"
| "baseIntersection maxLength other comparator (v # rest) result =
     (if length result < maxLength then
        (if \<not> arrayIncludesWith result v comparator \<and> arrayIncludesWith other v comparator
         then baseIntersection maxLength other comparator rest (result @ [v])
         else baseIntersection maxLength other comparator rest result)
      else result)"

definition intersectionWith :: "'a list \<Rightarrow> 'a list \<Rightarrow> ('a \<Rightarrow> 'a \<Rightarrow> bool) \<Rightarrow> 'a list" where
  "intersectionWith array other comparator =
     baseIntersection (min (length array) (length other)) other comparator array []"

fun baseUniq :: "('a \<Rightarrow> 'a \<Rightarrow> bool) \<Rightarrow> 'a list \<Rightarrow> 'a list \<Rightarrow> 'a list" where
  "baseUniq comparator [] result = result"
| "baseUniq comparator (v # rest) result =
     (if arrayIncludesWith result v comparator then baseUniq comparator rest result
      else baseUniq comparator rest (result @ [v]))"

definition uniqWith :: "'a list \<Rightarrow> ('a \<Rightarrow> 'a \<Rightarrow> bool) \<Rightarrow> 'a list" where
  "uniqWith array comparator = baseUniq comparator array []"

text \<open>\<open>Array.prototype.find\<close>, with \<open>undefined\<close> when nothing matches.\<close>

definition findOr :: "(jsval \<Rightarrow> bool) \<Rightarrow> jsval list \<Rightarrow> jsval" where
  "findOr P xs = (case find P xs of None \<Rightarrow> VUndefined | Some v \<Rightarrow> v)"

section \<open>The document\<close>

text \<open>
  The part of the DOM the handle acts on.  An element has inline style properties (the
  empty string when unset), registered listeners \<open>(type, callback, capture)\<close>, children,
  the nodes placed next to it through \<open>before()\<close> and \<open>after()\<close>, expando properties, and
  its extensibility and prototype.  \<open>el_parented\<close> says whether it has a parent.
\<close>

record element =
  el_style :: "string \<Rightarrow> string"
  el_styled :: bool
  el_listeners :: "(jsval \<times> jsval \<times> bool) list"
  el_children :: "node_ref list"
  el_prev :: "node_ref list"
  el_next :: "node_ref list"
  el_parented :: bool
  el_props :: "string \<Rightarrow> jsval"
  el_extensible :: bool
  el_proto :: jsval

definition blankElement :: element where
  "blankElement = \<lparr> el_style = (\<lambda>k. []), el_styled = True, el_listeners = [],
     el_children = [], el_prev = [], el_next = [], el_parented = False,
     el_props = (\<lambda>k. VUndefined), el_extensible = True, el_proto = VObj 0 \<rparr>"

record document =
  elems :: "node_ref \<Rightarrow> element"
  created :: nat

definition createElement :: "document \<Rightarrow> node_ref \<times> document" where
  "createElement d =
     (Inert (created d),
      d\<lparr> elems := (elems d)(Inert (created d) := blankElement), created := Suc (created d) \<rparr>)"

definition updElem :: "node_ref \<Rightarrow> (element \<Rightarrow> element) \<Rightarrow> document \<Rightarrow> document" where
  "updElem n f d = d\<lparr> elems := (elems d)(n := f (elems d n)) \<rparr>"

text \<open>\<open>n.remove()\<close>, also the first half of every insertion of \<open>n\<close> elsewhere.\<close>

definition detach :: "node_ref \<Rightarrow> document \<Rightarrow> document" where
  "detach n d = d\<lparr> elems := (\<lambda>m. (elems d m)\<lparr>
       el_children := removeAll n (el_children (elems d m)),
       el_prev := removeAll n (el_prev (elems d m)),
       el_next := removeAll n (el_next (elems d m)),
       el_parented := (if m = n then False else el_parented (elems d m)) \<rparr>) \<rparr>"

definition insertBefore :: "node_ref \<Rightarrow> node_ref \<Rightarrow> document \<Rightarrow> document" where
  "insertBefore target n d =
     (if el_parented (elems d target)
      then updElem n (\<lambda>e. e\<lparr> el_parented := True \<rparr>)
             (updElem target (\<lambda>e. e\<lparr> el_prev := el_prev e @ [n] \<rparr>) (detach n d))
      else d)"

definition insertAfter :: "node_ref \<Rightarrow> node_ref \<Rightarrow> document \<Rightarrow> document" where
  "insertAfter target n d =
     (if el_parented (elems d target)
      then updElem n (\<lambda>e. e\<lparr> el_parented := True \<rparr>)
             (updElem target (\<lambda>e. e\<lparr> el_next := n # el_next e \<rparr>) (detach n d))
      else d)"

definition appendChild :: "node_ref \<Rightarrow> node_ref \<Rightarrow> document \<Rightarrow> document" where
  "appendChild parent n d =
     updElem n (\<lambda>e. e\<lparr> el_parented := True \<rparr>)
       (updElem parent (\<lambda>e. e\<lparr> el_children := el_children e @ [n] \<rparr>) (detach n d))"

definition removeChild :: "node_ref \<Rightarrow> jsval \<Rightarrow> document \<Rightarrow> error + document" where
  "removeChild parent v d =
     (case v of
        VNode n \<Rightarrow> (if n \<in> set (el_children (elems d parent)) then Inr (detach n d)
                    else Inl NotFoundError)
      | _ \<Rightarrow> Inl (TypeError ''removeChild''))"

definition listenerOf :: "jsval list \<Rightarrow> jsval \<times> jsval \<times> bool" where
  "listenerOf param = (at param 0, at param 1, truthy (at param 2))"

definition addEventListener :: "node_ref \<Rightarrow> jsval list \<Rightarrow> document \<Rightarrow> document" where
  "addEventListener n param d =
     (if isNil (at param 1) \<or> listenerOf param \<in> set (el_listeners (elems d n)) then d
      else updElem n (\<lambda>e. e\<lparr> el_listeners := el_listeners e @ [listenerOf param] \<rparr>) d)"

definition removeEventListener :: "node_ref \<Rightarrow> jsval list \<Rightarrow> document \<Rightarrow> document" where
  "removeEventListener n param d =
     updElem n (\<lambda>e. e\<lparr> el_listeners := removeAll (listenerOf param) (el_listeners e) \<rparr>) d"

fun insertAllBefore :: "node_ref \<Rightarrow> jsval list \<Rightarrow> document \<Rightarrow> document" where
  "insertAllBefore target [] d = d"
| "insertAllBefore target (VNode n # vs) d = insertAllBefore target vs (insertBefore target n d)"
| "insertAllBefore target (v # vs) d = insertAllBefore target vs d"

fun insertAllAfter :: "node_ref \<Rightarrow> jsval list \<Rightarrow> document \<Rightarrow> document" where
  "insertAllAfter target [] d = d"
| "insertAllAfter target (VNode n # vs) d = insertAllAfter target vs (insertAfter target n d)"
| "insertAllAfter target (v # vs) d = insertAllAfter target vs d"

text \<open>The members of an element that are functions.\<close>

definition methodNames :: "string list" where
  "methodNames = [''addEventListener'', ''removeEventListener'', ''appendChild'',
     ''removeChild'', ''before'', ''after'', ''remove'']"

text \<open>\<open>target[name](...param)\<close>\<close>

definition invoke :: "node_ref \<Rightarrow> string \<Rightarrow> jsval list \<Rightarrow> document \<Rightarrow> error + document" where
  "invoke target name param d =
     (if name = ''addEventListener'' then Inr (addEventListener target param d)
      else if name = ''removeEventListener'' then Inr (removeEventListener target param d)
      else if name = ''appendChild'' then
        (case at param 0 of VNode n \<Rightarrow> Inr (appendChild target n d)
                          | _ \<Rightarrow> Inl (TypeError ''appendChild''))
      else if name = ''removeChild'' then removeChild target (at param 0) d
      else if name = ''before'' then Inr (insertAllBefore target param d)
      else if name = ''after'' then Inr (insertAllAfter target (rev param) d)
      else if name = ''remove'' then Inr (detach target d)
      else Inl (TypeError ''not a function''))"

section \<open>The stable handle (DomProxy)\<close>

text \<open>The records of the mutation log, one constructor per \<open>ActionTypes\<close> member.\<close>

datatype action =
    ADelete string
  | ASet string jsval
  | ADefineProperty string jsval
  | APreventExtensions
  | ASetPrototypeOf jsval
  | AGet string
  | AOwnKeys
  | AHas string
  | AGetOwnPropertyDescriptor string
  | AIsExtensible
  | AGetPrototypeOf
  | ACallMethods string "jsval list" jsval
  | AModifyStyle string string string

text \<open>
  The closure variables of one \<open>DomProxy(options)\<close> call.  \<open>observer\<close> is described after
  the record.
\<close>

record domProxy =
  isDestroyed :: bool
  virtualBefore :: "node_ref option"
  virtualBeforeShadow :: "node_ref option"
  current :: "node_ref option"
  virtualAfter :: "node_ref option"
  virtualAfterShadow :: "node_ref option"
  changes :: "action list"
  observer :: "(nat \<times> jsval) option"

text \<open>
  \<open>DomProxy(options)\<close> with the default options: \<open>current\<close> starts as a fresh
  \<open>div\<close>, nothing else exists yet.
\<close>

definition DomProxy :: "document \<Rightarrow> domProxy \<times> document" where
  "DomProxy d =
     (case createElement d of (n, d') \<Rightarrow>
        (\<lparr> isDestroyed = False, virtualBefore = None, virtualBeforeShadow = None,
           current = Some n, virtualAfter = None, virtualAfterShadow = None,
           changes = [], observer = None \<rparr>, d'))"

text \<open>
  Modelled from the spec: the watcher writes \<open>virtualNode.observer.init\<close> and
  \<open>virtualNode.observer.callback\<close>, a member the DomProxy source given here does not
  have.  The spec says the handle is configured to observe structural mutation of the
  bound target and to forward the notices to the \<open>onNodeMutation\<close> hook: the handle keeps
  the hook and the node it was created for.
\<close>

definition observe :: "nat \<Rightarrow> jsval \<Rightarrow> domProxy \<Rightarrow> domProxy" where
  "observe hook node p = p\<lparr> observer := Some (hook, node) \<rparr>"

subsection \<open>The traps of the forwarding reference\<close>

datatype got = MethodProxy node_ref string | StyleProxy node_ref | Plain jsval

definition push :: "action \<Rightarrow> domProxy \<Rightarrow> domProxy" where
  "push a p = p\<lparr> changes := changes p @ [a] \<rparr>"

text \<open>\<open>readonlyTraps.get\<close>: what reading \<open>key\<close> through the reference gives.\<close>

definition trapGet :: "string \<Rightarrow> domProxy \<Rightarrow> document \<Rightarrow> error + (got \<times> domProxy)" where
  "trapGet key p d =
     (case current p of
        Some c \<Rightarrow>
          (if key \<in> set methodNames then Inr (MethodProxy c key, push (AGet key) p)
           else if key = ''style'' then
             (if el_styled (elems d c) then Inr (StyleProxy c, push (AGet key) p)
              else Inl (TypeError ''Proxy target''))
           else Inr (Plain (el_props (elems d c) key), push (AGet key) p))
      | None \<Rightarrow> Inr (Plain VUndefined, push (AGet key) p))"

text \<open>
  Every use of \<open>handle.current\<close> below goes through the getter first, which throws once
  the handle is destroyed (and the proxy is revoked).
\<close>

definition getCurrent :: "domProxy \<Rightarrow> error + unit" where
  "getCurrent p = (if isDestroyed p then Inl (TypeError ''current after destroy'') else Inr ())"

text \<open>\<open>handle.current.name(...param)\<close>: the \<open>get\<close> trap, then the \<open>apply\<close> trap.\<close>

definition callMethod ::
  "string \<Rightarrow> jsval list \<Rightarrow> domProxy \<Rightarrow> document \<Rightarrow> error + (domProxy \<times> document)" where
  "callMethod name param p d =
     (case getCurrent p of Inl e \<Rightarrow> Inl e | Inr u \<Rightarrow>
      (case trapGet name p d of Inl e \<Rightarrow> Inl e
       | Inr (MethodProxy c key, p1) \<Rightarrow>
           (case invoke c key param d of Inl e \<Rightarrow> Inl e
            | Inr d' \<Rightarrow> Inr (push (ACallMethods key param VProxy) p1, d'))
       | Inr (g, p1) \<Rightarrow> Inl (TypeError ''not a function'')))"

text \<open>\<open>handle.current.style[styleKey] = styleValue\<close>\<close>

definition setStyle ::
  "string \<Rightarrow> string \<Rightarrow> domProxy \<Rightarrow> document \<Rightarrow> error + (domProxy \<times> document)" where
  "setStyle styleKey styleValue p d =
     (case getCurrent p of Inl e \<Rightarrow> Inl e | Inr u \<Rightarrow>
      (case trapGet ''style'' p d of Inl e \<Rightarrow> Inl e
       | Inr (StyleProxy c, p1) \<Rightarrow>
           Inr (push (AModifyStyle styleKey styleValue (el_style (elems d c) styleKey)) p1,
                updElem c (\<lambda>e. e\<lparr> el_style := (el_style e)(styleKey := styleValue) \<rparr>) d)
       | Inr (g, p1) \<Rightarrow> Inl (TypeError ''style'')))"

text \<open>The write traps, \<open>modifyTraps(record)\<close>.\<close>

definition trapSet :: "bool \<Rightarrow> string \<Rightarrow> jsval \<Rightarrow> domProxy \<Rightarrow> document \<Rightarrow> domProxy \<times> document" where
  "trapSet record key v p d =
     ((if record then push (ASet key v) p else p),
      (case current p of
         Some c \<Rightarrow> updElem c (\<lambda>e. e\<lparr> el_props := (el_props e)(key := v) \<rparr>) d
       | None \<Rightarrow> d))"

definition trapDeleteProperty :: "bool \<Rightarrow> string \<Rightarrow> domProxy \<Rightarrow> document \<Rightarrow> domProxy \<times> document" where
  "trapDeleteProperty record key p d =
     ((if record then push (ADelete key) p else p),
      (case current p of
         Some c \<Rightarrow> updElem c (\<lambda>e. e\<lparr> el_props := (el_props e)(key := VUndefined) \<rparr>) d
       | None \<Rightarrow> d))"

definition trapDefineProperty :: "bool \<Rightarrow> string \<Rightarrow> jsval \<Rightarrow> domProxy \<Rightarrow> document \<Rightarrow> domProxy \<times> document" where
  "trapDefineProperty record key attributes p d =
     ((if record then push (ADefineProperty key attributes) p else p),
      (case current p of
         Some c \<Rightarrow> updElem c (\<lambda>e. e\<lparr> el_props := (el_props e)(key := attributes) \<rparr>) d
       | None \<Rightarrow> d))"

definition trapPreventExtensions :: "bool \<Rightarrow> domProxy \<Rightarrow> document \<Rightarrow> domProxy \<times> document" where
  "trapPreventExtensions record p d =
     ((if record then push APreventExtensions p else p),
      (case current p of
         Some c \<Rightarrow> updElem c (\<lambda>e. e\<lparr> el_extensible := False \<rparr>) d
       | None \<Rightarrow> d))"

definition trapSetPrototypeOf :: "bool \<Rightarrow> jsval \<Rightarrow> domProxy \<Rightarrow> document \<Rightarrow> domProxy \<times> document" where
  "trapSetPrototypeOf record prototype p d =
     ((if record then push (ASetPrototypeOf prototype) p else p),
      (case current p of
         Some c \<Rightarrow> updElem c (\<lambda>e. e\<lparr> el_proto := prototype \<rparr>) d
       | None \<Rightarrow> d))"

text \<open>
  The remaining read traps (\<open>ownKeys\<close>, \<open>has\<close>, \<open>getOwnPropertyDescriptor\<close>,
  \<open>isExtensible\<close>, \<open>getPrototypeOf\<close>) append their record and read the target.
\<close>

definition trapRead :: "action \<Rightarrow> domProxy \<Rightarrow> domProxy" where
  "trapRead a p = push a p"

subsection \<open>Undo and redo\<close>

definition hasStyle :: "document \<Rightarrow> node_ref \<Rightarrow> bool" where
  "hasStyle d e = el_styled (elems d e)"

text \<open>
  \<open>change.op.thisArg[0]\<close> in \<open>undoEffects\<close>.  When the receiver is the forwarding
  reference the read goes through its \<open>get\<close> trap, which appends a \<open>get\<close> record to the
  log being iterated; the flag in the result says so.
\<close>

definition thisArg0 :: "jsval \<Rightarrow> domProxy \<Rightarrow> document \<Rightarrow> error + (bool \<times> jsval)" where
  "thisArg0 thisArg p d =
     (case thisArg of
        VProxy \<Rightarrow>
          (case current p of
             Some c \<Rightarrow> Inr (True, el_props (elems d c) ''0'')
           | None \<Rightarrow> Inr (True, VUndefined))
      | VArr xs \<Rightarrow> Inr (False, at xs 0)
      | VUndefined \<Rightarrow> Inl (TypeError ''undefined[0]'')
      | VNull \<Rightarrow> Inl (TypeError ''null[0]'')
      | _ \<Rightarrow> Inr (False, VUndefined))"

text \<open>The \<open>callMethods\<close> branch of the loop body of \<open>undoEffects(nextCurrent)\<close>.\<close>

definition undoCall ::
  "node_ref option \<Rightarrow> string \<Rightarrow> jsval list \<Rightarrow> jsval \<Rightarrow> domProxy \<Rightarrow> document
     \<Rightarrow> error + (bool \<times> document)" where
  "undoCall nextCurrent attr param thisArg p d =
     (if attr = ''addEventListener'' then
        (case current p of
           Some c \<Rightarrow> Inr (False, removeEventListener c param d)
         | None \<Rightarrow> Inr (False, d))
      else if attr = ''appendChild'' then
        (if nextCurrent = None then
           (case thisArg0 thisArg p d of Inl e \<Rightarrow> Inl e
            | Inr (read, node) \<Rightarrow>
                (case current p of
                   Some c \<Rightarrow>
                     (if truthy node then
                        (case removeChild c node d of Inl e \<Rightarrow> Inl e | Inr d' \<Rightarrow> Inr (read, d'))
                      else Inr (read, d))
                 | None \<Rightarrow> Inr (read, d)))
         else Inr (False, d))
      else Inr (False, d))"

definition undoStyle :: "string \<Rightarrow> string \<Rightarrow> domProxy \<Rightarrow> document \<Rightarrow> document" where
  "undoStyle name originalValue p d =
     (case current p of
        Some c \<Rightarrow>
          (if hasStyle d c
           then updElem c (\<lambda>e. e\<lparr> el_style := (el_style e)(name := originalValue) \<rparr>) d
           else d)
      | None \<Rightarrow> d)"

fun undoWeight :: "action \<Rightarrow> nat" where
  "undoWeight (ACallMethods name param thisArg) = 2"
| "undoWeight a = 1"

text \<open>
  \<open>for (const change of changes)\<close> in \<open>undoEffects\<close>: the second argument is what the
  iterator has still to visit, which grows when the body appends to \<open>changes\<close>.
\<close>

function undoLoop ::
  "node_ref option \<Rightarrow> action list \<Rightarrow> domProxy \<Rightarrow> document \<Rightarrow> error + (domProxy \<times> document)" where
  "undoLoop nextCurrent [] p d = Inr (p, d)"
| "undoLoop nextCurrent (ACallMethods attr param thisArg # todo) p d =
     (case undoCall nextCurrent attr param thisArg p d of
        Inl e \<Rightarrow> Inl e
      | Inr (read, d') \<Rightarrow>
          (if read then undoLoop nextCurrent (todo @ [AGet ''0'']) (push (AGet ''0'') p) d'
           else undoLoop nextCurrent todo p d'))"
| "undoLoop nextCurrent (AModifyStyle name v originalValue # todo) p d =
     undoLoop nextCurrent todo p (undoStyle name originalValue p d)"
| "undoLoop nextCurrent (ADelete k # todo) p d = undoLoop nextCurrent todo p d"
| "undoLoop nextCurrent (ASet k v # todo) p d = undoLoop nextCurrent todo p d"
| "undoLoop nextCurrent (ADefineProperty k v # todo) p d = undoLoop nextCurrent todo p d"
| "undoLoop nextCurrent (APreventExtensions # todo) p d = undoLoop nextCurrent todo p d"
| "undoLoop nextCurrent (ASetPrototypeOf v # todo) p d = undoLoop nextCurrent todo p d"
| "undoLoop nextCurrent (AGet k # todo) p d = undoLoop nextCurrent todo p d"
| "undoLoop nextCurrent (AOwnKeys # todo) p d = undoLoop nextCurrent todo p d"
| "undoLoop nextCurrent (AHas k # todo) p d = undoLoop nextCurrent todo p d"
| "undoLoop nextCurrent (AGetOwnPropertyDescriptor k # todo) p d = undoLoop nextCurrent todo p d"
| "undoLoop nextCurrent (AIsExtensible # todo) p d = undoLoop nextCurrent todo p d"
| "undoLoop nextCurrent (AGetPrototypeOf # todo) p d = undoLoop nextCurrent todo p d"
  by pat_completeness auto
termination
  by (relation "measure (\<lambda>(n, todo, p, d). sum_list (map undoWeight todo))") auto

definition undoEffects ::
  "node_ref option \<Rightarrow> domProxy \<Rightarrow> document \<Rightarrow> error + (domProxy \<times> document)" where
  "undoEffects nextCurrent p d = undoLoop nextCurrent (changes p) p d"

text \<open>The loop body of \<open>redoEffects\<close>, on the bound target \<open>c\<close>.\<close>

definition replayable :: "string list" where
  "replayable = [''appendChild'', ''addEventListener'', ''before'', ''after'']"

fun redoChange :: "action \<Rightarrow> node_ref \<Rightarrow> domProxy \<Rightarrow> document \<Rightarrow> error + document" where
  "redoChange (ASetPrototypeOf v) c p d = Inr (snd (trapSetPrototypeOf False v p d))"
| "redoChange APreventExtensions c p d = Inr (snd (trapPreventExtensions False p d))"
| "redoChange (ADefineProperty k v) c p d = Inr (snd (trapDefineProperty False k v p d))"
| "redoChange (ASet k v) c p d = Inr (snd (trapSet False k v p d))"
| "redoChange (ADelete k) c p d = Inr (snd (trapDeleteProperty False k p d))"
| "redoChange (ACallMethods key param thisArg) c p d =
     (if key \<in> set replayable then invoke c key param d else Inr d)"
| "redoChange (AModifyStyle name v originalValue) c p d =
     (if hasStyle d c
      then Inr (updElem c (\<lambda>e. e\<lparr> el_style := (el_style e)(name := v) \<rparr>) d)
      else Inl (TypeError ''style of undefined''))"
| "redoChange a c p d = Inr d"

fun redoLoop :: "action list \<Rightarrow> node_ref \<Rightarrow> domProxy \<Rightarrow> document \<Rightarrow> error + document" where
  "redoLoop [] c p d = Inr d"
| "redoLoop (change # todo) c p d =
     (case redoChange change c p d of Inl e \<Rightarrow> Inl e | Inr d' \<Rightarrow> redoLoop todo c p d')"

definition redoEffects :: "domProxy \<Rightarrow> document \<Rightarrow> error + document" where
  "redoEffects p d = (case current p of None \<Rightarrow> Inr d | Some c \<Rightarrow> redoLoop (changes p) c p d)"

subsection \<open>The members of the handle\<close>

definition removeIf :: "node_ref option \<Rightarrow> document \<Rightarrow> document" where
  "removeIf anchor d = (case anchor of Some a \<Rightarrow> detach a d | None \<Rightarrow> d)"

text \<open>\<open>get realCurrent\<close>\<close>

definition realCurrent :: "domProxy \<Rightarrow> node_ref option" where
  "realCurrent p = (if isDestroyed p then None else current p)"

text \<open>\<open>set realCurrent(node)\<close>; \<open>None\<close> is \<open>null\<close> or \<open>undefined\<close>.\<close>

definition setRealCurrent ::
  "node_ref option \<Rightarrow> domProxy \<Rightarrow> document \<Rightarrow> error + (domProxy \<times> document)" where
  "setRealCurrent node p d =
     (if isDestroyed p then Inl (TypeError ''set current for a destroyed proxy'')
      else if node = current p then Inr (p, d)
      else
        (case undoEffects node p d of Inl e \<Rightarrow> Inl e
         | Inr (p1, d1) \<Rightarrow>
             (case node of
                None \<Rightarrow>
                  (case createElement d1 of (n, d2) \<Rightarrow>
                     Inr (p1\<lparr> current := Some n \<rparr>,
                          removeIf (virtualAfter p1) (removeIf (virtualBefore p1) d2)))
              | Some n \<Rightarrow>
                  (let p2 = p1\<lparr> current := Some n \<rparr>;
                       d2 = (case virtualAfter p2 of Some a \<Rightarrow> insertAfter n a d1 | None \<Rightarrow> d1);
                       d3 = (case virtualBefore p2 of Some b \<Rightarrow> insertBefore n b d2 | None \<Rightarrow> d2)
                   in (case redoEffects p2 d3 of Inl e \<Rightarrow> Inl e | Inr d4 \<Rightarrow> Inr (p2, d4))))))"

definition destroy :: "domProxy \<Rightarrow> document \<Rightarrow> domProxy \<times> document" where
  "destroy p d =
     (p\<lparr> isDestroyed := True, virtualBeforeShadow := None, virtualAfterShadow := None,
         virtualBefore := None, virtualAfter := None, current := None \<rparr>,
      removeIf (virtualAfter p) (removeIf (virtualBefore p) d))"

text \<open>\<open>get before\<close> and \<open>get after\<close>, with the default \<open>createBefore\<close>/\<open>createAfter\<close>.\<close>

definition getBefore :: "domProxy \<Rightarrow> document \<Rightarrow> error + (node_ref \<times> domProxy \<times> document)" where
  "getBefore p d =
     (if isDestroyed p then Inl (TypeError ''before after destroy'')
      else (case virtualBefore p of
              Some b \<Rightarrow> Inr (b, p, d)
            | None \<Rightarrow>
                (case createElement d of (b, d1) \<Rightarrow>
                   Inr (b, p\<lparr> virtualBefore := Some b \<rparr>,
                        (case current p of Some c \<Rightarrow> insertBefore c b d1 | None \<Rightarrow> d1)))))"

definition getAfter :: "domProxy \<Rightarrow> document \<Rightarrow> error + (node_ref \<times> domProxy \<times> document)" where
  "getAfter p d =
     (if isDestroyed p then Inl (TypeError ''after after destroy'')
      else (case virtualAfter p of
              Some a \<Rightarrow> Inr (a, p, d)
            | None \<Rightarrow>
                (case createElement d of (a, d1) \<Rightarrow>
                   Inr (a, p\<lparr> virtualAfter := Some a \<rparr>,
                        (case current p of Some c \<Rightarrow> insertAfter c a d1 | None \<Rightarrow> d1)))))"

definition weakBefore :: "domProxy \<Rightarrow> node_ref option" where
  "weakBefore p = (if isDestroyed p then None else virtualBefore p)"

definition weakAfter :: "domProxy \<Rightarrow> node_ref option" where
  "weakAfter p = (if isDestroyed p then None else virtualAfter p)"

text \<open>\<open>get beforeShadow\<close> and \<open>get afterShadow\<close>: \<open>attachShadow\<close> gives a fresh root.\<close>

definition getBeforeShadow :: "domProxy \<Rightarrow> document \<Rightarrow> error + (node_ref \<times> domProxy \<times> document)" where
  "getBeforeShadow p d =
     (case virtualBeforeShadow p of
        Some s \<Rightarrow> Inr (s, p, d)
      | None \<Rightarrow>
          (case getBefore p d of Inl e \<Rightarrow> Inl e
           | Inr (b, p1, d1) \<Rightarrow>
               (case createElement d1 of (s, d2) \<Rightarrow>
                  Inr (s, p1\<lparr> virtualBeforeShadow := Some s \<rparr>, d2))))"

definition getAfterShadow :: "domProxy \<Rightarrow> document \<Rightarrow> error + (node_ref \<times> domProxy \<times> document)" where
  "getAfterShadow p d =
     (case virtualAfterShadow p of
        Some s \<Rightarrow> Inr (s, p, d)
      | None \<Rightarrow>
          (case getAfter p d of Inl e \<Rightarrow> Inl e
           | Inr (a, p1, d1) \<Rightarrow>
               (case createElement d1 of (s, d2) \<Rightarrow>
                  Inr (s, p1\<lparr> virtualAfterShadow := Some s \<rparr>, d2))))"

section \<open>Rate-limited diagnostics\<close>

text \<open>
  \<open>warning({ once, fn })\<close>.  None of the watcher's four diagnostics sets \<open>dev\<close>, so the
  \<open>dev\<close> branch of the constructor is never taken.  \<open>warn\<close> returns whether \<open>f(stack)\<close>
  ran.
\<close>

datatype onceOpt = OnceBool bool | OnceNum int

record warningObj =
  ignored :: bool
  warned :: nat
  once :: onceOpt

definition warning :: "onceOpt \<Rightarrow> warningObj" where
  "warning opt = \<lparr> ignored = False, warned = 0, once = opt \<rparr>"

fun onceTruthy :: "onceOpt \<Rightarrow> bool" where
  "onceTruthy (OnceBool b) = b"
| "onceTruthy (OnceNum n) = (n \<noteq> 0)"

definition warn :: "warningObj \<Rightarrow> bool \<times> warningObj" where
  "warn obj =
     (if ignored obj then (False, obj)
      else if warned obj \<noteq> 0 \<and> onceTruthy (once obj) then (False, obj)
      else if (case once obj of OnceNum n \<Rightarrow> int (warned obj) \<le> n | OnceBool b \<Rightarrow> False)
        then (False, obj)
      else (True, obj\<lparr> warned := Suc (warned obj) \<rparr>))"

section \<open>The watcher\<close>

text \<open>
  What a \<open>useForeach\<close> function returns: nothing, a remove callback, or an object with
  optional \<open>onRemove\<close>, \<open>onTargetChanged\<close> and \<open>onNodeMutation\<close>.  User functions are
  named by numbers; what the watcher does with them (calls, console output, emitted
  events, settled awaits) is appended to \<open>effects\<close>.
\<close>

datatype useForeachReturns = RVoid | RRemove nat | RHooks "nat option" "nat option" "nat option"

datatype forEachArgs = ForNode nat jsval jsval | ForValue jsval jsval

datatype message =
    MsgChainUseForeach | MsgIgnoreMinimalResults | MsgRepeatedKeys | MsgSingleMode
  | MsgNoEffectInSingleMode string

datatype effect =
    ConsoleWarn message
  | CallForEach forEachArgs
  | CallRemove nat jsval
  | CallTargetChanged nat jsval jsval
  | EmitIteration "jsval list" "jsval list" "jsval list" "jsval list" "jsval list" "jsval list"
  | EmitChange jsval jsval jsval jsval
  | EmitRemove jsval jsval
  | EmitAdd jsval jsval
  | Settle nat jsval

text \<open>The \<open>onIteration\<close> listener \<open>f\<close> that a pending \<open>then\<close> installs.\<close>

record waiter =
  w_id :: nat
  w_minimal :: int
  w_onfulfilled :: "(jsval \<Rightarrow> jsval) option"

text \<open>
  The fields of a \<open>Watcher\<close> instance, then what it shares with its surroundings: the
  document, the handles it created (by number), the removals handed to
  \<open>requestIdleCallback\<close>, the listeners of pending awaits, the effects so far, and the
  number of \<open>watcherChecker\<close> calls.
\<close>

record watcher =
  isWatching :: bool
  useForeachFn :: "(forEachArgs \<Rightarrow> useForeachReturns) option"
  lastKeyList :: "jsval list"
  lastNodeList :: "jsval list"
  lastCallbackMap :: "(jsval \<times> useForeachReturns) list"
  lastVirtualNodesMap :: "(jsval \<times> nat option) list"
  singleMode :: bool
  singleModeLastValue :: jsval
  singleModeHasLastValue :: bool
  singleModeCallback :: useForeachReturns
  listeningIteration :: bool
  listeningChange :: bool
  listeningRemove :: bool
  listeningAdd :: bool
  firstVirtualNode :: nat
  mapNodeToKey :: "(jsval \<Rightarrow> nat \<Rightarrow> jsval list \<Rightarrow> jsval) option"
  keyComparer :: "jsval \<Rightarrow> jsval \<Rightarrow> bool"
  valueComparer :: "jsval \<Rightarrow> jsval \<Rightarrow> bool"
  isWatcherCheckerRunning :: bool
  needCheckerRunAgainAfterCurrentSchedule :: bool
  warning_forget_watch :: warningObj
  warning_repeated_keys :: warningObj
  warning_single_mode :: warningObj
  warning_mutation :: warningObj
  page :: document
  handles :: "nat \<Rightarrow> domProxy"
  nextHandle :: nat
  idle :: "(useForeachReturns \<times> jsval \<times> nat option) list"
  waiters :: "waiter list"
  nextWaiter :: nat
  effects :: "effect list"
  checkerRuns :: nat

text \<open>A new instance over the document \<open>d\<close>; its first handle is handle 0.\<close>

definition Watcher :: "document \<Rightarrow> watcher" where
  "Watcher d =
     (case DomProxy d of (p, d') \<Rightarrow>
       \<lparr> isWatching = False, useForeachFn = None, lastKeyList = [], lastNodeList = [],
         lastCallbackMap = [], lastVirtualNodesMap = [], singleMode = False,
         singleModeLastValue = VUndefined, singleModeHasLastValue = False,
         singleModeCallback = RVoid, listeningIteration = False, listeningChange = False,
         listeningRemove = False, listeningAdd = False, firstVirtualNode = 0,
         mapNodeToKey = None, keyComparer = defaultEqualityComparer,
         valueComparer = defaultEqualityComparer, isWatcherCheckerRunning = False,
         needCheckerRunAgainAfterCurrentSchedule = False,
         warning_forget_watch = warning (OnceBool True),
         warning_repeated_keys = warning (OnceBool True),
         warning_single_mode = warning (OnceNum 15),
         warning_mutation = warning (OnceBool True),
         page = d', handles = (\<lambda>h. p), nextHandle = 1, idle = [], waiters = [],
         nextWaiter = 0, effects = [], checkerRuns = 0 \<rparr>)"

definition emit :: "effect \<Rightarrow> watcher \<Rightarrow> watcher" where
  "emit e w = w\<lparr> effects := effects w @ [e] \<rparr>"

subsection \<open>JavaScript \<open>Map\<close>\<close>

text \<open>\<open>Map.set\<close> keeps the position of a key that is already there.\<close>

fun mapSet :: "'k \<Rightarrow> 'v \<Rightarrow> ('k \<times> 'v) list \<Rightarrow> ('k \<times> 'v) list" where
  "mapSet k v [] = [(k, v)]"
| "mapSet k v ((k', v') # m) = (if k' = k then (k, v) # m else (k', v') # mapSet k v m)"

definition getCallbacks :: "(jsval \<times> useForeachReturns) list \<Rightarrow> jsval \<Rightarrow> useForeachReturns" where
  "getCallbacks m k = (case map_of m k of Some c \<Rightarrow> c | None \<Rightarrow> RVoid)"

definition getVirtualNode :: "(jsval \<times> nat option) list \<Rightarrow> jsval \<Rightarrow> nat option" where
  "getVirtualNode m k = (case map_of m k of Some h \<Rightarrow> h | None \<Rightarrow> None)"

subsection \<open>Configuration\<close>

definition noNeedInSingleMode :: "string \<Rightarrow> watcher \<Rightarrow> watcher" where
  "noNeedInSingleMode method w =
     (if singleMode w then emit (ConsoleWarn (MsgNoEffectInSingleMode method)) w else w)"

definition useForeach :: "(forEachArgs \<Rightarrow> useForeachReturns) \<Rightarrow> watcher \<Rightarrow> watcher" where
  "useForeach forEach w =
     ((if useForeachFn w \<noteq> None then emit (ConsoleWarn MsgChainUseForeach) w else w)
        \<lparr> useForeachFn := Some forEach \<rparr>)"

definition assignKeys :: "(jsval \<Rightarrow> nat \<Rightarrow> jsval list \<Rightarrow> jsval) \<Rightarrow> watcher \<Rightarrow> watcher" where
  "assignKeys keyAssigner w = (noNeedInSingleMode ''assignKeys'' w)\<lparr> mapNodeToKey := Some keyAssigner \<rparr>"

definition setComparer ::
  "(jsval \<Rightarrow> jsval \<Rightarrow> bool) option \<Rightarrow> (jsval \<Rightarrow> jsval \<Rightarrow> bool) option \<Rightarrow> watcher \<Rightarrow> watcher" where
  "setComparer kc vc w =
     (let w1 = (case kc of Some c \<Rightarrow> (noNeedInSingleMode ''setComparer'' w)\<lparr> keyComparer := c \<rparr>
                         | None \<Rightarrow> w)
      in (case vc of Some c \<Rightarrow> w1\<lparr> valueComparer := c \<rparr> | None \<Rightarrow> w1))"

definition enableSingleMode :: "watcher \<Rightarrow> watcher" where
  "enableSingleMode w =
     w\<lparr> warning_single_mode := (warning_single_mode w)\<lparr> ignored := True \<rparr>, singleMode := True \<rparr>"

definition enableBatchMode :: "watcher \<Rightarrow> watcher" where
  "enableBatchMode w = w\<lparr> warning_single_mode := (warning_single_mode w)\<lparr> ignored := True \<rparr> \<rparr>"

definition omitWarningForRepeatedKeys :: "watcher \<Rightarrow> watcher" where
  "omitWarningForRepeatedKeys w =
     (noNeedInSingleMode ''omitWarningForRepeatedKeys'' w)
       \<lparr> warning_repeated_keys := (warning_repeated_keys w)\<lparr> ignored := True \<rparr> \<rparr>"

datatype eventName = OnIteration | OnChange | OnRemove | OnAdd

text \<open>
  \<open>addListener\<close> for the three per-entry events: the listener itself lives in the event
  emitter, the watcher only remembers that somebody listens.  (\<open>removeListener\<close> leaves
  that flag alone.)
\<close>

fun addListener :: "eventName \<Rightarrow> watcher \<Rightarrow> watcher" where
  "addListener OnIteration w =
     (noNeedInSingleMode ''addListener(onIteration)'' w)\<lparr> listeningIteration := True \<rparr>"
| "addListener OnChange w = w\<lparr> listeningChange := True \<rparr>"
| "addListener OnRemove w = w\<lparr> listeningRemove := True \<rparr>"
| "addListener OnAdd w = w\<lparr> listeningAdd := True \<rparr>"

subsection \<open>Handles of the watcher\<close>

definition newHandle :: "watcher \<Rightarrow> nat \<times> watcher" where
  "newHandle w =
     (case DomProxy (page w) of (p, d') \<Rightarrow>
        (nextHandle w,
         w\<lparr> page := d', handles := (handles w)(nextHandle w := p),
            nextHandle := Suc (nextHandle w) \<rparr>))"

text \<open>\<open>handle.realCurrent = node\<close> for the handle numbered \<open>h\<close>.\<close>

definition rebind :: "nat \<Rightarrow> node_ref option \<Rightarrow> watcher \<Rightarrow> error + watcher" where
  "rebind h node w =
     (case setRealCurrent node (handles w h) (page w) of
        Inl e \<Rightarrow> Inl e
      | Inr (p', d') \<Rightarrow> Inr (w\<lparr> handles := (handles w)(h := p'), page := d' \<rparr>))"

text \<open>\<open>applyUseForeachCallback(callback)\<close>: the three hooks it extracts.\<close>

fun hookRemove :: "useForeachReturns \<Rightarrow> nat option" where
  "hookRemove RVoid = None"
| "hookRemove (RRemove f) = Some f"
| "hookRemove (RHooks onRemove onTargetChanged onNodeMutation) = onRemove"

fun hookChange :: "useForeachReturns \<Rightarrow> nat option" where
  "hookChange (RHooks onRemove onTargetChanged onNodeMutation) = onTargetChanged"
| "hookChange c = None"

fun hookMutation :: "useForeachReturns \<Rightarrow> nat option" where
  "hookMutation (RHooks onRemove onTargetChanged onNodeMutation) = onNodeMutation"
| "hookMutation c = None"

definition applyRemove :: "useForeachReturns \<Rightarrow> jsval \<Rightarrow> watcher \<Rightarrow> watcher" where
  "applyRemove callback node w =
     (case hookRemove callback of Some f \<Rightarrow> emit (CallRemove f node) w | None \<Rightarrow> w)"

definition applyTargetChange :: "useForeachReturns \<Rightarrow> jsval \<Rightarrow> jsval \<Rightarrow> watcher \<Rightarrow> watcher" where
  "applyTargetChange callback newNode oldNode w =
     (case hookChange callback of
        Some f \<Rightarrow> emit (CallTargetChanged f newNode oldNode) w
      | None \<Rightarrow> w)"

text \<open>
  \<open>applyUseForeachCallback(callbacks)('warn mutation')(this._warning_mutation_)\<close> runs
  \<open>mutation && args[0]()\<close>, and \<open>args[0]\<close> is the warning object, which is not callable.
\<close>

definition applyWarnMutation :: "useForeachReturns \<Rightarrow> watcher \<Rightarrow> error + watcher" where
  "applyWarnMutation callback w =
     (case hookMutation callback of
        Some f \<Rightarrow> Inl (TypeError ''args[0] is not a function'')
      | None \<Rightarrow> Inr w)"

subsection \<open>The multi-target pass\<close>

fun findIndex :: "('a \<Rightarrow> bool) \<Rightarrow> 'a list \<Rightarrow> nat option" where
  "findIndex P [] = None"
| "findIndex P (x # xs) = (if P x then Some 0 else map_option Suc (findIndex P xs))"

definition findNodeFromListByKey ::
  "(jsval \<Rightarrow> jsval \<Rightarrow> bool) \<Rightarrow> jsval list \<Rightarrow> jsval list \<Rightarrow> jsval \<Rightarrow> jsval" where
  "findNodeFromListByKey comparer list keys key =
     (case findIndex (\<lambda>x. comparer x key) keys of None \<Rightarrow> VNull | Some i \<Rightarrow> at list i)"

definition thisKeyListOf :: "watcher \<Rightarrow> jsval list \<Rightarrow> jsval list" where
  "thisKeyListOf w currentIteration =
     (case mapNodeToKey w of
        None \<Rightarrow> currentIteration
      | Some f \<Rightarrow> map (\<lambda>(i, node). f node i currentIteration) (enumerate 0 currentIteration))"

definition findFromLast :: "watcher \<Rightarrow> jsval \<Rightarrow> jsval" where
  "findFromLast w = findNodeFromListByKey (keyComparer w) (lastNodeList w) (lastKeyList w)"

definition findFromNew :: "watcher \<Rightarrow> jsval list \<Rightarrow> jsval list \<Rightarrow> jsval \<Rightarrow> jsval" where
  "findFromNew w currentIteration thisKeyList =
     findNodeFromListByKey (keyComparer w) currentIteration thisKeyList"

definition goneKeysOf :: "watcher \<Rightarrow> jsval list \<Rightarrow> jsval list" where
  "goneKeysOf w thisKeyList = differenceWith (lastKeyList w) thisKeyList (keyComparer w)"

definition newKeysOf :: "watcher \<Rightarrow> jsval list \<Rightarrow> jsval list" where
  "newKeysOf w thisKeyList = differenceWith thisKeyList (lastKeyList w) (keyComparer w)"

definition oldSameKeysOf :: "watcher \<Rightarrow> jsval list \<Rightarrow> jsval list" where
  "oldSameKeysOf w thisKeyList = intersectionWith (lastKeyList w) thisKeyList (keyComparer w)"

definition newSameKeysOf :: "watcher \<Rightarrow> jsval list \<Rightarrow> jsval list" where
  "newSameKeysOf w thisKeyList = intersectionWith thisKeyList (lastKeyList w) (keyComparer w)"

text \<open>The warning about repeated keys.\<close>

definition warnRepeatedKeys :: "jsval list \<Rightarrow> watcher \<Rightarrow> watcher" where
  "warnRepeatedKeys thisKeyList w =
     (if length (uniqWith thisKeyList (keyComparer w)) < length thisKeyList then
        (case warn (warning_repeated_keys w) of (fired, obj) \<Rightarrow>
           (if fired then emit (ConsoleWarn MsgRepeatedKeys) else id)
             (w\<lparr> warning_repeated_keys := obj \<rparr>))
      else w)"

text \<open>Key is gone: the removal is handed to \<open>requestIdleCallback\<close>.\<close>

fun scheduleRemovals :: "jsval list \<Rightarrow> watcher \<Rightarrow> watcher" where
  "scheduleRemovals [] w = w"
| "scheduleRemovals (oldKey # rest) w =
     scheduleRemovals rest
       (w\<lparr> idle := idle w @ [(getCallbacks (lastCallbackMap w) oldKey, findFromLast w oldKey,
                              getVirtualNode (lastVirtualNodesMap w) oldKey)] \<rparr>)"

text \<open>One deferred removal, when the idle scheduler gets to it.\<close>

definition runIdle :: "watcher \<Rightarrow> watcher" where
  "runIdle w =
     (case idle w of
        [] \<Rightarrow> w
      | (callbacks, node, virtualNode) # rest \<Rightarrow>
          (let w1 = applyRemove callbacks node (w\<lparr> idle := rest \<rparr>)
           in (case virtualNode of
                 Some h \<Rightarrow>
                   (case destroy (handles w1 h) (page w1) of (p', d') \<Rightarrow>
                      w1\<lparr> handles := (handles w1)(h := p'), page := d' \<rparr>)
               | None \<Rightarrow> w1)))"

text \<open>
  Key is new: the body of the loop over \<open>newKeys\<close>, for a registered \<open>useForeach\<close>
  function \<open>forEach\<close>.  The two maps are the next generation maps built so far.
\<close>

type_synonym nextMaps = "(jsval \<times> useForeachReturns) list \<times> (jsval \<times> nat option) list"

definition addNode ::
  "(forEachArgs \<Rightarrow> useForeachReturns) \<Rightarrow> jsval list \<Rightarrow> jsval list \<Rightarrow> jsval
     \<Rightarrow> watcher \<times> nextMaps \<Rightarrow> error + watcher \<times> nextMaps" where
  "addNode forEach currentIteration thisKeyList newKey st =
     (case st of (w, nextCallbackMap, nextVirtualNodesMap) \<Rightarrow>
       (case findFromNew w currentIteration thisKeyList newKey of
          VNode n \<Rightarrow>
            (case newHandle w of (h, w1) \<Rightarrow>
              (case rebind h (Some n) w1 of
                 Inl e \<Rightarrow> Inl e
               | Inr w2 \<Rightarrow>
                   (let callbacks = forEach (ForNode h newKey (VNode n));
                        w3 = emit (CallForEach (ForNode h newKey (VNode n))) w2;
                        w4 = (case hookMutation callbacks of
                                Some f \<Rightarrow> w3\<lparr> handles := (handles w3)
                                            (h := observe f (VNode n) (handles w3 h)) \<rparr>
                              | None \<Rightarrow> w3)
                    in Inr (w4, mapSet newKey callbacks nextCallbackMap,
                            mapSet newKey (Some h) nextVirtualNodesMap))))
        | node \<Rightarrow>
            (let callbacks = forEach (ForValue node newKey);
                 w1 = emit (CallForEach (ForValue node newKey)) w
             in (case applyWarnMutation callbacks w1 of
                   Inl e \<Rightarrow> Inl e
                 | Inr w2 \<Rightarrow> Inr (w2, mapSet newKey callbacks nextCallbackMap,
                                   nextVirtualNodesMap)))))"

fun addNodes ::
  "(forEachArgs \<Rightarrow> useForeachReturns) \<Rightarrow> jsval list \<Rightarrow> jsval list \<Rightarrow> jsval list
     \<Rightarrow> watcher \<times> nextMaps \<Rightarrow> error + watcher \<times> nextMaps" where
  "addNodes forEach currentIteration thisKeyList [] st = Inr st"
| "addNodes forEach currentIteration thisKeyList (newKey # rest) st =
     (case addNode forEach currentIteration thisKeyList newKey st of
        Inl e \<Rightarrow> Inl e
      | Inr st' \<Rightarrow> addNodes forEach currentIteration thisKeyList rest st')"

definition keyIsNew :: "jsval list \<Rightarrow> jsval list \<Rightarrow> watcher \<Rightarrow> error + watcher \<times> nextMaps" where
  "keyIsNew currentIteration thisKeyList w =
     (case useForeachFn w of
        None \<Rightarrow> Inr (w, [], [])
      | Some forEach \<Rightarrow>
          addNodes forEach currentIteration thisKeyList (newKeysOf w thisKeyList) (w, [], []))"

text \<open>Key is the same, but the node is changed.\<close>

definition changedNodesOf ::
  "watcher \<Rightarrow> jsval list \<Rightarrow> jsval list \<Rightarrow> (jsval \<times> jsval \<times> jsval \<times> jsval) list" where
  "changedNodesOf w currentIteration thisKeyList =
     filter (\<lambda>(a, b, oldKey, newKey). \<not> valueComparer w a b)
       (map (\<lambda>x. (findFromLast w x, findFromNew w currentIteration thisKeyList x, x,
                  findOr (\<lambda>newK. keyComparer w newK x) (newSameKeysOf w thisKeyList)))
            (oldSameKeysOf w thisKeyList))"

definition changeNode :: "jsval \<times> jsval \<times> jsval \<times> jsval \<Rightarrow> watcher \<Rightarrow> error + watcher" where
  "changeNode entry w =
     (case entry of (oldNode, newNode, oldKey, newKey) \<Rightarrow>
       (let fn = getCallbacks (lastCallbackMap w) oldKey in
        (case newNode of
           VNode n \<Rightarrow>
             (case getVirtualNode (lastVirtualNodesMap w) oldKey of
                None \<Rightarrow> Inl (TypeError ''realCurrent of undefined'')
              | Some h \<Rightarrow>
                  (case rebind h (Some n) w of
                     Inl e \<Rightarrow> Inl e
                   | Inr w1 \<Rightarrow> Inr (applyTargetChange fn newNode oldNode w1)))
         | v \<Rightarrow> Inr (applyTargetChange fn newNode oldNode w))))"

fun changeNodes :: "(jsval \<times> jsval \<times> jsval \<times> jsval) list \<Rightarrow> watcher \<Rightarrow> error + watcher" where
  "changeNodes [] w = Inr w"
| "changeNodes (entry # rest) w =
     (case changeNode entry w of Inl e \<Rightarrow> Inl e | Inr w1 \<Rightarrow> changeNodes rest w1)"

text \<open>Final: copy the same keys into the next generation maps.\<close>

fun copySameKeys :: "watcher \<Rightarrow> jsval list \<Rightarrow> jsval list \<Rightarrow> nextMaps \<Rightarrow> nextMaps" where
  "copySameKeys w oldSameKeys [] maps = maps"
| "copySameKeys w oldSameKeys (newKey # rest) maps =
     (case maps of (nextCallbackMap, nextVirtualNodesMap) \<Rightarrow>
       (let oldKey = findOr (\<lambda>oldKey. keyComparer w newKey oldKey) oldSameKeys
        in copySameKeys w oldSameKeys rest
             (mapSet newKey (getCallbacks (lastCallbackMap w) oldKey) nextCallbackMap,
              mapSet newKey (getVirtualNode (lastVirtualNodesMap w) oldKey) nextVirtualNodesMap)))"

text \<open>Stop the watcher.\<close>

definition stopWatch :: "watcher \<Rightarrow> watcher" where
  "stopWatch w = w\<lparr> isWatching := False \<rparr>"

text \<open>
  The promise that \<open>then\<close> returns is \<open>then().then(onfulfilled, onrejected)\<close>: whatever
  the inner promise is resolved with goes through \<open>onfulfilled\<close> once more.  The first
  resolution of a promise is the one that counts.
\<close>

definition throughOnfulfilled :: "(jsval \<Rightarrow> jsval) option \<Rightarrow> jsval \<Rightarrow> jsval" where
  "throughOnfulfilled onfulfilled v = (case onfulfilled of Some f \<Rightarrow> f v | None \<Rightarrow> v)"

fun settledIds :: "effect list \<Rightarrow> nat list" where
  "settledIds [] = []"
| "settledIds (Settle i v # es) = i # settledIds es"
| "settledIds (e # es) = settledIds es"

definition resolve :: "waiter \<Rightarrow> jsval \<Rightarrow> watcher \<Rightarrow> watcher" where
  "resolve wt v w =
     (if w_id wt \<in> set (settledIds (effects w)) then w
      else emit (Settle (w_id wt) (throughOnfulfilled (w_onfulfilled wt) v)) w)"

text \<open>The listener \<open>f\<close> of a pending \<open>then\<close>, called with \<open>v.values.current\<close>.\<close>

definition runWaiter :: "jsval list \<Rightarrow> waiter \<Rightarrow> watcher \<Rightarrow> watcher" where
  "runWaiter nodes wt w =
     (let mapf = (case w_onfulfilled wt of Some f \<Rightarrow> f | None \<Rightarrow> (\<lambda>x. x));
          w1 = (if singleMode w \<and> 1 \<le> length nodes then resolve wt (mapf (at nodes 0)) w else w)
      in if int (length nodes) < w_minimal wt then w1
         else (resolve wt (VArr (map mapf nodes)) (stopWatch w1))
                \<lparr> waiters := filter (\<lambda>x. w_id x \<noteq> w_id wt) (waiters (stopWatch w1)) \<rparr>)"

fun runWaiters :: "jsval list \<Rightarrow> waiter list \<Rightarrow> watcher \<Rightarrow> watcher" where
  "runWaiters nodes [] w = w"
| "runWaiters nodes (wt # rest) w = runWaiters nodes rest (runWaiter nodes wt w)"

fun emitAll :: "effect list \<Rightarrow> watcher \<Rightarrow> watcher" where
  "emitAll [] w = w"
| "emitAll (e # es) w = emitAll es (emit e w)"

text \<open>
  The events of a pass.  \<open>w0\<close> is the watcher as the pass found it (\<open>findFromLast\<close> was
  built from its lists), \<open>w\<close> the watcher after the new generation is stored.
\<close>

definition emitEvents ::
  "watcher \<Rightarrow> jsval list \<Rightarrow> jsval list \<Rightarrow> (jsval \<times> jsval \<times> jsval \<times> jsval) list
     \<Rightarrow> watcher \<Rightarrow> watcher" where
  "emitEvents w0 currentIteration thisKeyList changedNodes w =
     (let goneKeys = goneKeysOf w0 thisKeyList;
          newKeys = newKeysOf w0 thisKeyList;
          w1 = (if listeningIteration w
                   \<and> length changedNodes + length goneKeys + length newKeys \<noteq> 0
                then runWaiters currentIteration (waiters w)
                       (emit (EmitIteration thisKeyList newKeys goneKeys currentIteration
                                (map (findFromNew w0 currentIteration thisKeyList) newKeys)
                                (map (findFromLast w0) goneKeys)) w)
                else w);
          w2 = (if listeningChange w1
                then emitAll (map (\<lambda>(oldNode, newNode, oldKey, newKey).
                                     EmitChange oldNode newNode oldKey newKey) changedNodes) w1
                else w1);
          w3 = (if listeningRemove w2
                then emitAll (map (\<lambda>key. EmitRemove key (findFromLast w0 key)) goneKeys) w2
                else w2)
      in (if listeningAdd w3
          then emitAll (map (\<lambda>key. EmitAdd key
                               (findFromNew w0 currentIteration thisKeyList key)) newKeys) w3
          else w3))"

text \<open>For \<open>firstVirtualNode\<close>.\<close>

definition updateFirst :: "jsval list \<Rightarrow> watcher \<Rightarrow> error + watcher" where
  "updateFirst currentIteration w =
     (case at currentIteration 0 of
        VNode n \<Rightarrow> rebind (firstVirtualNode w) (Some n) w
      | VUndefined \<Rightarrow> rebind (firstVirtualNode w) None w
      | VNull \<Rightarrow> rebind (firstVirtualNode w) None w
      | v \<Rightarrow> Inr w)"

text \<open>Prompt the developer to open single mode.\<close>

definition promptSingleMode :: "jsval list \<Rightarrow> watcher \<Rightarrow> watcher" where
  "promptSingleMode currentIteration w =
     (let w1 = (if 1 < length currentIteration
                then w\<lparr> warning_single_mode := (warning_single_mode w)\<lparr> ignored := True \<rparr> \<rparr>
                else w)
      in (if length currentIteration = 1 then
            (case warn (warning_single_mode w1) of (fired, obj) \<Rightarrow>
               (if fired then emit (ConsoleWarn MsgSingleMode) else id)
                 (w1\<lparr> warning_single_mode := obj \<rparr>))
          else w1))"

text \<open>The four assignments that replace the previous generation by the next one.\<close>

definition storeGeneration :: "jsval list \<Rightarrow> jsval list \<Rightarrow> nextMaps \<Rightarrow> watcher \<Rightarrow> watcher" where
  "storeGeneration currentIteration thisKeyList maps w =
     w\<lparr> lastCallbackMap := fst maps, lastVirtualNodesMap := snd maps,
        lastKeyList := thisKeyList, lastNodeList := currentIteration \<rparr>"

text \<open>Watcher callback with single mode off.\<close>

definition normalModeWatcherCallback :: "jsval list \<Rightarrow> watcher \<Rightarrow> error + watcher" where
  "normalModeWatcherCallback currentIteration w =
     (let thisKeyList = thisKeyListOf w currentIteration;
          w1 = warnRepeatedKeys thisKeyList w;
          w2 = scheduleRemovals (goneKeysOf w1 thisKeyList) w1
      in (case keyIsNew currentIteration thisKeyList w2 of
            Inl e \<Rightarrow> Inl e
          | Inr (w3, maps) \<Rightarrow>
              (let changedNodes = changedNodesOf w3 currentIteration thisKeyList in
               (case changeNodes changedNodes w3 of
                  Inl e \<Rightarrow> Inl e
                | Inr w4 \<Rightarrow>
                    (let w5 = storeGeneration currentIteration thisKeyList
                                (copySameKeys w4 (oldSameKeysOf w4 thisKeyList)
                                   (newSameKeysOf w4 thisKeyList) maps) w4;
                         w6 = emitEvents w4 currentIteration thisKeyList changedNodes w5
                     in (case updateFirst currentIteration w6 of
                           Inl e \<Rightarrow> Inl e
                         | Inr w7 \<Rightarrow> Inr (promptSingleMode currentIteration w7)))))))"

subsection \<open>The single-target pass\<close>

text \<open>The two assignments to \<open>firstVirtualNode.realCurrent\<close> that open the callback.\<close>

definition bindFirst :: "jsval \<Rightarrow> watcher \<Rightarrow> error + watcher" where
  "bindFirst firstValue w =
     (case (if firstValue = VUndefined then rebind (firstVirtualNode w) None w else Inr w) of
        Inl e \<Rightarrow> Inl e
      | Inr w1 \<Rightarrow>
          (case firstValue of
             VNode n \<Rightarrow> rebind (firstVirtualNode w1) (Some n) w1
           | v \<Rightarrow> Inr w1))"

text \<open>Case: value is gone.\<close>

definition valueIsGone :: "watcher \<Rightarrow> error + watcher" where
  "valueIsGone w =
     (let w1 = applyRemove (singleModeCallback w) (singleModeLastValue w) w in
      (case (if instanceofNode (singleModeLastValue w1)
             then rebind (firstVirtualNode w1) None w1 else Inr w1) of
         Inl e \<Rightarrow> Inl e
       | Inr w2 \<Rightarrow>
           Inr ((emit (EmitRemove VUndefined (singleModeLastValue w2)) w2)
                  \<lparr> singleModeLastValue := VUndefined, singleModeHasLastValue := False \<rparr>)))"

text \<open>Case: value is new.\<close>

definition valueIsNew :: "jsval \<Rightarrow> watcher \<Rightarrow> error + watcher" where
  "valueIsNew firstValue w =
     (case (if instanceofNode firstValue then
              (case useForeachFn w of
                 Some forEach \<Rightarrow>
                   Inr ((emit (CallForEach
                                 (ForNode (firstVirtualNode w) firstValue firstValue)) w)
                          \<lparr> singleModeCallback :=
                              forEach (ForNode (firstVirtualNode w) firstValue firstValue) \<rparr>)
               | None \<Rightarrow> Inr w)
            else
              (case useForeachFn w of
                 Some forEach \<Rightarrow>
                   applyWarnMutation (forEach (ForValue firstValue VUndefined))
                     ((emit (CallForEach (ForValue firstValue VUndefined)) w)
                        \<lparr> singleModeCallback := forEach (ForValue firstValue VUndefined) \<rparr>)
               | None \<Rightarrow> Inr w)) of
        Inl e \<Rightarrow> Inl e
      | Inr w1 \<Rightarrow>
          Inr ((emit (EmitAdd VUndefined firstValue) w1)
                 \<lparr> singleModeLastValue := firstValue, singleModeHasLastValue := True \<rparr>))"

text \<open>Case: value has changed.\<close>

definition valueHasChanged :: "jsval \<Rightarrow> watcher \<Rightarrow> watcher" where
  "valueHasChanged firstValue w =
     (emit (EmitChange (singleModeLastValue w) firstValue VUndefined VUndefined)
        (applyTargetChange (singleModeCallback w) firstValue (singleModeLastValue w) w))
       \<lparr> singleModeLastValue := firstValue, singleModeHasLastValue := True \<rparr>"

text \<open>Watcher callback for single mode.\<close>

definition singleModeWatcherCallback :: "jsval \<Rightarrow> watcher \<Rightarrow> error + watcher" where
  "singleModeWatcherCallback firstValue w =
     (case bindFirst firstValue w of
        Inl e \<Rightarrow> Inl e
      | Inr w1 \<Rightarrow>
          (if singleModeHasLastValue w1 \<and> isNil firstValue then valueIsGone w1
           else if \<not> singleModeHasLastValue w1 \<and> truthy firstValue then valueIsNew firstValue w1
           else if singleModeHasLastValue w1
                   \<and> \<not> valueComparer w1 (singleModeLastValue w1) firstValue
             then Inr (valueHasChanged firstValue w1)
           else Inr w1))"

subsection \<open>Running the checks\<close>

text \<open>
  \<open>watcherChecker\<close>; \<open>thisNodes\<close> is what \<open>liveSelector.evaluateOnce()\<close> returns in this
  call: an array when single mode is off, one value (or \<open>undefined\<close>) when it is on.
\<close>

definition watcherChecker :: "jsval \<Rightarrow> watcher \<Rightarrow> error + watcher" where
  "watcherChecker thisNodes w0 =
     (let w = w0\<lparr> checkerRuns := Suc (checkerRuns w0) \<rparr> in
      if \<not> isWatching w then Inr w
      else if singleMode w then singleModeWatcherCallback thisNodes w
      else (case thisNodes of
              VArr currentIteration \<Rightarrow> normalModeWatcherCallback currentIteration w
            | v \<Rightarrow> Inl (TypeError ''not an array'')))"

definition startWatch :: "jsval \<Rightarrow> watcher \<Rightarrow> error + watcher" where
  "startWatch thisNodes w =
     watcherChecker thisNodes
       (w\<lparr> isWatching := True,
           warning_forget_watch := (warning_forget_watch w)\<lparr> ignored := True \<rparr> \<rparr>)"

text \<open>
  \<open>scheduleWatcherCheck\<close>.  \<open>checker\<close> is \<open>this.watcherChecker()\<close> as it runs in its
  surroundings: the query it evaluates and whatever its callbacks do, calls of
  \<open>scheduleWatcherCheck\<close> included.
\<close>

function againLoop :: "(watcher \<Rightarrow> error + watcher) \<Rightarrow> watcher \<Rightarrow> error + watcher" where
  "againLoop checker w =
     (if needCheckerRunAgainAfterCurrentSchedule w then
        (case checker w of
           Inl e \<Rightarrow> Inl e
         | Inr w1 \<Rightarrow> againLoop checker (w1\<lparr> needCheckerRunAgainAfterCurrentSchedule := False \<rparr>))
      else Inr w)"
  by pat_completeness auto
termination
  by (relation "measure (\<lambda>(c, w). if needCheckerRunAgainAfterCurrentSchedule w then 1 else 0)")
     auto

definition scheduleWatcherCheck :: "(watcher \<Rightarrow> error + watcher) \<Rightarrow> watcher \<Rightarrow> error + watcher" where
  "scheduleWatcherCheck checker w =
     (if isWatcherCheckerRunning w
      then Inr (w\<lparr> needCheckerRunAgainAfterCurrentSchedule := True \<rparr>)
      else
        (case checker (w\<lparr> isWatcherCheckerRunning := True \<rparr>) of
           Inl e \<Rightarrow> Inl e
         | Inr w1 \<Rightarrow>
             (case againLoop checker w1 of
                Inl e \<Rightarrow> Inl e
              | Inr w2 \<Rightarrow> Inr (w2\<lparr> isWatcherCheckerRunning := False \<rparr>))))"

text \<open>
  A check in surroundings \<open>env\<close>: the \<open>i\<close>-th call of \<open>watcherChecker\<close> on the instance
  evaluates the query to \<open>fst (env i)\<close>, and \<open>snd (env i)\<close> triggers ask for a check while
  it runs.  Each of them calls \<open>scheduleWatcherCheck\<close> on the running instance.  While
  \<open>isWatcherCheckerRunning\<close> is set such a call only sets the run-again flag, and the pass
  neither reads nor writes the two scheduling flags, so where in the pass the trigger
  arrives makes no difference.  While the flag is not set the call runs a pass of its own
  at once, inside the running pass; the calls are placed after the work of the running
  pass, which leaves the number of passes as it is.
\<close>

fun requests :: "nat \<Rightarrow> watcher \<Rightarrow> error + watcher" where
  "requests 0 w = Inr w"
| "requests (Suc n) w =
     (case scheduleWatcherCheck (watcherChecker (VArr [])) w of
        Inl e \<Rightarrow> Inl e
      | Inr w1 \<Rightarrow> requests n w1)"

definition checkerIn :: "(nat \<Rightarrow> jsval \<times> nat) \<Rightarrow> watcher \<Rightarrow> error + watcher" where
  "checkerIn env w =
     (case watcherChecker (fst (env (checkerRuns w))) w of
        Inl e \<Rightarrow> Inl e
      | Inr w1 \<Rightarrow> requests (snd (env (checkerRuns w))) w1)"

text \<open>
  \<open>startWatch\<close> in surroundings \<open>env\<close>: it calls \<open>this.watcherChecker()\<close> itself, not
  through \<open>scheduleWatcherCheck\<close>, so \<open>isWatcherCheckerRunning\<close> is not set while that
  pass runs.
\<close>

definition startWatchIn :: "(nat \<Rightarrow> jsval \<times> nat) \<Rightarrow> watcher \<Rightarrow> error + watcher" where
  "startWatchIn env w =
     checkerIn env
       (w\<lparr> isWatching := True,
           warning_forget_watch := (warning_forget_watch w)\<lparr> ignored := True \<rparr> \<rparr>)"

subsection \<open>Utilities and await\<close>

definition getVirtualNodeByKey :: "jsval \<Rightarrow> watcher \<Rightarrow> nat option \<times> watcher" where
  "getVirtualNodeByKey key w =
     (getVirtualNode (lastVirtualNodesMap w)
        (findOr (\<lambda>k. keyComparer w k key) (map fst (lastVirtualNodesMap w))),
      noNeedInSingleMode ''getVirtualNodeByKey'' w)"

datatype outcome = Rejected error | Fulfilled jsval | Pending nat

definition throughOnrejected :: "(error \<Rightarrow> jsval) option \<Rightarrow> error \<Rightarrow> outcome" where
  "throughOnrejected onrejected e =
     (case onrejected of Some g \<Rightarrow> Fulfilled (g e) | None \<Rightarrow> Rejected e)"

text \<open>
  \<open>then(onfulfilled, onrejected, { minimalResultsRequired }, starter)\<close>; \<open>result\<close> is
  what \<open>liveSelector.evaluateOnce()\<close> returns inside it.  The outcome is the state of the
  returned promise once the synchronous part is over.
\<close>

definition then_await ::
  "(jsval \<Rightarrow> jsval) option \<Rightarrow> (error \<Rightarrow> jsval) option \<Rightarrow> int option
     \<Rightarrow> (watcher \<Rightarrow> error + watcher) \<Rightarrow> jsval \<Rightarrow> watcher \<Rightarrow> outcome \<times> watcher" where
  "then_await onfulfilled onrejected options starter result w =
     (let minimalResultsRequired = (case options of Some n \<Rightarrow> n | None \<Rightarrow> 1);
          mapf = (case onfulfilled of Some f \<Rightarrow> f | None \<Rightarrow> (\<lambda>x. x))
      in if minimalResultsRequired < 1
         then (throughOnrejected onrejected (TypeError ''Invalid minimalResultsRequired''), w)
         else
           (let w1 = (if singleMode w \<and> 1 < minimalResultsRequired
                      then emit (ConsoleWarn MsgIgnoreMinimalResults) w else w)
            in (case result of
                  VArr xs \<Rightarrow>
                    (if minimalResultsRequired \<le> int (length xs)
                     then (Fulfilled (throughOnfulfilled onfulfilled (VArr (map mapf xs))), w1)
                     else if singleMode w1
                     then (Fulfilled (throughOnfulfilled onfulfilled result), w1)
                     else
                       (case starter w1 of
                          Inl e \<Rightarrow> (throughOnrejected onrejected e, w1)
                        | Inr w2 \<Rightarrow>
                            (Pending (nextWaiter w2),
                             (addListener OnIteration w2)
                               \<lparr> waiters := waiters w2 @
                                    [\<lparr> w_id = nextWaiter w2, w_minimal = minimalResultsRequired,
                                       w_onfulfilled = onfulfilled \<rparr>],
                                  nextWaiter := Suc (nextWaiter w2) \<rparr>)))
                | v \<Rightarrow>
                    (if singleMode w1
                     then (Fulfilled (throughOnfulfilled onfulfilled result), w1)
                     else
                       (case starter w1 of
                          Inl e \<Rightarrow> (throughOnrejected onrejected e, w1)
                        | Inr w2 \<Rightarrow>
                            (Pending (nextWaiter w2),
                             (addListener OnIteration w2)
                               \<lparr> waiters := waiters w2 @
                                    [\<lparr> w_id = nextWaiter w2, w_minimal = minimalResultsRequired,
                                       w_onfulfilled = onfulfilled \<rparr>],
                                  nextWaiter := Suc (nextWaiter w2) \<rparr>))))))"

subsection \<open>A run of passes\<close>

fun runPasses :: "jsval list list \<Rightarrow> watcher \<Rightarrow> error + watcher" where
  "runPasses [] w = Inr w"
| "runPasses (currentIteration # rest) w =
     (case normalModeWatcherCallback currentIteration w of
        Inl e \<Rightarrow> Inl e
      | Inr w' \<Rightarrow> runPasses rest w')"

section \<open>Views of the watcher used in the proofs\<close>

text \<open>
  \<open>stable w\<close> forgets what the phases of a pass before the new generation is stored may
  change (document, handles, deferred removals, the watching flag, pending awaits, the
  repeated-keys diagnostic) and keeps, of the effects, only the single-mode suggestions.
\<close>

definition stable :: "watcher \<Rightarrow> watcher" where
  "stable w = w\<lparr> page := \<lparr> elems = (\<lambda>n. blankElement), created = 0 \<rparr>,
       handles := (\<lambda>h. fst (DomProxy \<lparr> elems = (\<lambda>n. blankElement), created = 0 \<rparr>)),
       nextHandle := 0,
       effects := filter (\<lambda>e. e = ConsoleWarn MsgSingleMode) (effects w),
       idle := [], isWatching := False, waiters := [],
       warning_repeated_keys := warning (OnceBool True) \<rparr>"

definition sched :: "watcher \<Rightarrow> bool \<times> bool \<times> nat" where
  "sched w = (isWatcherCheckerRunning w, needCheckerRunAgainAfterCurrentSchedule w, checkerRuns w)"

text \<open>The single-mode suggestion has never fired and its counter is still zero.\<close>

definition quiet :: "watcher \<Rightarrow> bool" where
  "quiet w = (once (warning_single_mode w) = OnceNum 15 \<and> warned (warning_single_mode w) = 0
     \<and> filter (\<lambda>e. e = ConsoleWarn MsgSingleMode) (effects w) = [])"

subsection \<open>What a pass announces\<close>

text \<open>
  The calls of the \<open>useForeach\<close> function among the effects, the key each of them was
  called for, and the keys of the \<open>onAdd\<close> events among the effects.
\<close>

fun forEachCalls :: "effect list \<Rightarrow> forEachArgs list" where
  "forEachCalls [] = []"
| "forEachCalls (CallForEach a # es) = a # forEachCalls es"
| "forEachCalls (e # es) = forEachCalls es"

fun calledKey :: "forEachArgs \<Rightarrow> jsval" where
  "calledKey (ForNode h key node) = key"
| "calledKey (ForValue node key) = key"

fun addedKeys :: "effect list \<Rightarrow> jsval list" where
  "addedKeys [] = []"
| "addedKeys (EmitAdd key v # es) = key # addedKeys es"
| "addedKeys (e # es) = addedKeys es"

text \<open>The removal that a pass hands to \<open>requestIdleCallback\<close> for a key that is gone.\<close>

definition removalOf :: "watcher \<Rightarrow> jsval \<Rightarrow> useForeachReturns \<times> jsval \<times> nat option" where
  "removalOf w oldKey =
     (getCallbacks (lastCallbackMap w) oldKey, findFromLast w oldKey,
      getVirtualNode (lastVirtualNodesMap w) oldKey)"

text \<open>\<open>diffed w\<close>: the three of them together, which most steps of a pass leave alone.\<close>

definition diffed :: "watcher \<Rightarrow> forEachArgs list \<times> jsval list \<times> (useForeachReturns \<times> jsval \<times> nat option) list" where
  "diffed w = (forEachCalls (effects w), addedKeys (effects w), idle w)"

section \<open>Keys under the comparer\<close>

text \<open>
  \<open>hasKey comparator k keys\<close>: some entry of \<open>keys\<close> is the key \<open>k\<close> as far as the
  comparer can tell, the test of \<open>keys.findIndex(x => this.keyComparer(x, key))\<close>.
\<close>

definition hasKey :: "('a \<Rightarrow> 'a \<Rightarrow> bool) \<Rightarrow> 'a \<Rightarrow> 'a list \<Rightarrow> bool" where
  "hasKey comparator k keys = list_ex (\<lambda>x. comparator x k) keys"

text \<open>\<open>baseIntersection\<close> without its cut at the length of the shortest array.\<close>

fun interLoop :: "'a list \<Rightarrow> ('a \<Rightarrow> 'a \<Rightarrow> bool) \<Rightarrow> 'a list \<Rightarrow> 'a list \<Rightarrow> 'a list" where
  "interLoop other comparator [] result = result"
| "interLoop other comparator (v # rest) result =
     (if \<not> arrayIncludesWith result v comparator \<and> arrayIncludesWith other v comparator
      then interLoop other comparator rest (result @ [v])
      else interLoop other comparator rest result)"

text \<open>
  The first key of a class in the handle map is the first key of that class in the key
  list: what every pass establishes for the generation it stores.
\<close>

definition handleMapOrdered :: "watcher \<Rightarrow> bool" where
  "handleMapOrdered w =
     list_all (\<lambda>m. find (\<lambda>x. keyComparer w x m) (map fst (lastVirtualNodesMap w))
                   = find (\<lambda>x. keyComparer w x m) (lastKeyList w))
       (map fst (lastVirtualNodesMap w))"

definition bindable :: "watcher \<Rightarrow> jsval list \<Rightarrow> jsval list \<Rightarrow> jsval \<Rightarrow> bool" where
  "bindable w cur keys k = instanceofNode (findFromNew w cur keys k)"

section \<open>What undo leaves of a style property\<close>

text \<open>
  \<open>undoEffects\<close> walks the log from the oldest record to the newest and assigns each
  recorded prior value: the value a property ends with is the prior value of its newest
  \<open>modifyStyle\<close> record, or the value it had when no record names it.
\<close>

fun undoneStyle :: "string \<Rightarrow> action list \<Rightarrow> string \<Rightarrow> string" where
  "undoneStyle name [] v = v"
| "undoneStyle name (AModifyStyle n new originalValue # log) v =
     undoneStyle name log (if n = name then originalValue else v)"
| "undoneStyle name (a # log) v = undoneStyle name log v"

section \<open>Sequences of handle operations\<close>

definition bindE :: "error + 'a \<Rightarrow> ('a \<Rightarrow> error + 'b) \<Rightarrow> error + 'b" where
  "bindE m f = (case m of Inl e \<Rightarrow> Inl e | Inr x \<Rightarrow> f x)"

definition freshBound :: "node_ref \<Rightarrow> document \<Rightarrow> error + (domProxy \<times> document)" where
  "freshBound a d = (case DomProxy d of (p, d') \<Rightarrow> setRealCurrent (Some a) p d')"

definition styleAndListen ::
  "string \<Rightarrow> string \<Rightarrow> jsval list \<Rightarrow> domProxy \<times> document \<Rightarrow> error + (domProxy \<times> document)" where
  "styleAndListen k v param st =
     bindE (setStyle k v (fst st) (snd st))
       (\<lambda>st1. callMethod ''addEventListener'' param (fst st1) (snd st1))"

definition thereAndBack ::
  "node_ref \<Rightarrow> node_ref \<Rightarrow> domProxy \<times> document \<Rightarrow> error + (domProxy \<times> document)" where
  "thereAndBack a b st =
     bindE (setRealCurrent (Some b) (fst st) (snd st))
       (\<lambda>st1. setRealCurrent (Some a) (fst st1) (snd st1))"

definition listenersAfterDestroy :: "node_ref \<Rightarrow> domProxy \<times> document \<Rightarrow> (jsval \<times> jsval \<times> bool) list" where
  "listenersAfterDestroy a st = el_listeners (elems (snd (destroy (fst st) (snd st))) a)"

definition appendThenUnbind ::
  "node_ref \<Rightarrow> node_ref \<Rightarrow> document \<Rightarrow> error + (domProxy \<times> document)" where
  "appendThenUnbind a child d =
     bindE (bindE (freshBound a d)
              (\<lambda>st. callMethod ''appendChild'' [VNode child] (fst st) (snd st)))
       (\<lambda>st. setRealCurrent None (fst st) (snd st))"

definition childrenOf :: "node_ref \<Rightarrow> domProxy \<times> document \<Rightarrow> node_ref list" where
  "childrenOf a st = el_children (elems (snd st) a)"

section \<open>Example inputs\<close>

text \<open>A page whose nodes are all attached, unstyled elements without listeners.\<close>

definition exampleDocument :: document where
  "exampleDocument = \<lparr> elems = (\<lambda>n. blankElement\<lparr> el_parented := True \<rparr>), created = 0 \<rparr>"

definition exampleWatching :: watcher where
  "exampleWatching = (Watcher exampleDocument)\<lparr> isWatching := True \<rparr>"

definition exampleSingle :: watcher where
  "exampleSingle = (enableSingleMode (Watcher exampleDocument))\<lparr> isWatching := True \<rparr>"

text \<open>Surroundings in which the query finds nothing and every pass is asked once for a check.\<close>

definition exampleEnv :: "nat \<Rightarrow> jsval \<times> nat" where
  "exampleEnv i = (VArr [], 1)"

text \<open>A transform for \<open>then\<close>: \<open>x => typeof x === 'number' ? x + 1 : NaN\<close>.\<close>

definition addOne :: "jsval \<Rightarrow> jsval" where
  "addOne v = (case v of VNum n \<Rightarrow> VNum (n + 1) | _ \<Rightarrow> VNaN)"

definition exampleRoundTrip :: "error + (domProxy \<times> document)" where
  "exampleRoundTrip =
     bindE (bindE (freshBound (Doc 1) exampleDocument)
              (styleAndListen ''color'' ''red'' [VStr ''click'', VObj 7]))
       (thereAndBack (Doc 1) (Doc 2))"

text \<open>
  A watcher whose keys are the positions in the query result, with a \<open>useForeach\<close>
  function that returns nothing.
\<close>

definition exampleKeyed :: watcher where
  "exampleKeyed =
     assignKeys (\<lambda>node i arr. VNum (int i)) (useForeach (\<lambda>args. RVoid) exampleWatching)"

text \<open>A multi-mode watcher with a \<open>useForeach\<close> function that returns nothing.\<close>

definition exampleForEach :: watcher where
  "exampleForEach = useForeach (\<lambda>args. RVoid) (Watcher exampleDocument)"

section \<open>Unfolding the model on concrete inputs\<close>

lemmas dom_defs = createElement_def updElem_def detach_def insertBefore_def insertAfter_def
  appendChild_def removeChild_def listenerOf_def addEventListener_def removeEventListener_def
  methodNames_def invoke_def at_def blankElement_def isNil_def

lemmas proxy_defs = DomProxy_def observe_def push_def trapGet_def getCurrent_def callMethod_def
  setStyle_def trapSet_def trapDeleteProperty_def trapDefineProperty_def
  trapPreventExtensions_def trapSetPrototypeOf_def hasStyle_def thisArg0_def undoCall_def
  undoStyle_def undoEffects_def replayable_def redoEffects_def removeIf_def realCurrent_def
  setRealCurrent_def destroy_def

lemmas pass_defs = warning_def warn_def Watcher_def emit_def getCallbacks_def getVirtualNode_def
  newHandle_def rebind_def applyRemove_def applyTargetChange_def applyWarnMutation_def
  findNodeFromListByKey_def thisKeyListOf_def findFromLast_def findFromNew_def goneKeysOf_def
  newKeysOf_def oldSameKeysOf_def newSameKeysOf_def warnRepeatedKeys_def addNode_def
  keyIsNew_def changedNodesOf_def changeNode_def stopWatch_def resolve_def runWaiter_def
  emitEvents_def updateFirst_def promptSingleMode_def storeGeneration_def
  normalModeWatcherCallback_def watcherChecker_def differenceWith_def intersectionWith_def
  uniqWith_def arrayIncludesWith_def findOr_def defaultEqualityComparer_def

lemmas handle_run_defs = bindE_def freshBound_def styleAndListen_def thereAndBack_def DomProxy_def
  setRealCurrent_def undoEffects_def redoEffects_def setStyle_def callMethod_def getCurrent_def
  trapGet_def methodNames_def push_def invoke_def createElement_def updElem_def undoCall_def
  undoStyle_def hasStyle_def replayable_def addEventListener_def removeEventListener_def
  destroy_def removeIf_def

section \<open>The three key sets\<close>

lemma includes_iff: "arrayIncludesWith xs v c = (\<exists>x\<in>set xs. c v x)"
  by (simp add: arrayIncludesWith_def list_ex_iff)

lemma hasKey_iff: "hasKey c k xs = (\<exists>x\<in>set xs. c x k)"
  by (simp add: hasKey_def list_ex_iff)

lemma per_sym: "symp c \<Longrightarrow> c x y \<Longrightarrow> c y x"
  by (rule sympD)

lemma per_trans: "transp c \<Longrightarrow> c x y \<Longrightarrow> c y z \<Longrightarrow> c x z"
  by (rule transpD)

lemma per_refl:
  assumes "symp c" "transp c" "c x y"
  shows "c x x"
  using per_trans [OF assms(2) assms(3) per_sym [OF assms(1) assms(3)]] .

lemma per_join:
  assumes "symp c" "transp c" "c x z" "c y z"
  shows "c x y"
  using per_trans [OF assms(2) assms(3) per_sym [OF assms(1) assms(4)]] .

lemma interLoop_prefix: "\<exists>ys. interLoop other c rest res = res @ ys"
proof (induction rest arbitrary: res)
  case Nil then show ?case by simp
next
  case (Cons v rest)
  show ?case
  proof (cases "\<not> arrayIncludesWith res v c \<and> arrayIncludesWith other v c")
    case True
    from Cons [of "res @ [v]"] obtain ys where "interLoop other c rest (res @ [v]) = (res @ [v]) @ ys" ..
    with True show ?thesis by simp
  next
    case False
    with Cons [of res] show ?thesis by auto
  qed
qed

lemma interLoop_keeps: "set res \<subseteq> set (interLoop other c rest res)"
  using interLoop_prefix [of other c rest res] by auto

lemma interLoop_subset:
  "x \<in> set (interLoop other c rest res)
   \<Longrightarrow> x \<in> set res \<or> (x \<in> set rest \<and> arrayIncludesWith other x c)"
proof (induction rest arbitrary: res)
  case Nil then show ?case by simp
next
  case (Cons v rest)
  show ?case
  proof (cases "\<not> arrayIncludesWith res v c \<and> arrayIncludesWith other v c")
    case True
    with Cons.prems have "x \<in> set (interLoop other c rest (res @ [v]))" by simp
    from Cons.IH [OF this] True show ?thesis by auto
  next
    case False
    with Cons.prems have "x \<in> set (interLoop other c rest res)" by auto
    from Cons.IH [OF this] show ?thesis by auto
  qed
qed

lemma interLoop_covers:
  assumes "symp c" "transp c"
  shows "v \<in> set rest \<Longrightarrow> arrayIncludesWith other v c
   \<Longrightarrow> arrayIncludesWith (interLoop other c rest res) v c"
proof (induction rest arbitrary: res)
  case Nil then show ?case by simp
next
  case (Cons x rest)
  show ?case
  proof (cases "v = x")
    case True
    from Cons.prems obtain y where "c v y" by (auto simp: includes_iff)
    with assms have vv: "c v v" by (rule per_refl)
    show ?thesis
    proof (cases "arrayIncludesWith res x c")
      case inc: True
      then obtain r where r: "r \<in> set res" "c x r" by (auto simp: includes_iff)
      from inc have "interLoop other c (x # rest) res = interLoop other c rest res" by simp
      moreover from r interLoop_keeps [of res other c rest]
      have "r \<in> set (interLoop other c rest res)" by blast
      ultimately show ?thesis using True r(2) unfolding includes_iff by auto
    next
      case False
      with Cons.prems True have "interLoop other c (x # rest) res = interLoop other c rest (res @ [x])"
        by simp
      moreover have "x \<in> set (interLoop other c rest (res @ [x]))"
        using interLoop_keeps [of "res @ [x]" other c rest] by auto
      ultimately show ?thesis using True vv unfolding includes_iff by auto
    qed
  next
    case False
    with Cons.prems have "v \<in> set rest" by simp
    from Cons.IH [OF this Cons.prems(2)] show ?thesis by simp
  qed
qed

text \<open>pigeonhole\<close>

lemma full_result_covers:
  fixes c :: "'a \<Rightarrow> 'a \<Rightarrow> bool"
  assumes s: "symp c" and t: "transp c"
    and d: "distinct res"
    and cp: "\<forall>r\<in>set res. \<exists>y\<in>set other. c r y"
    and pw: "\<forall>r1\<in>set res. \<forall>r2\<in>set res. c r1 r2 \<longrightarrow> r1 = r2"
    and len: "length other \<le> length res"
    and y: "y \<in> set other"
  shows "\<exists>r\<in>set res. c r y"
proof -
  from cp have "\<exists>f. \<forall>r\<in>set res. f r \<in> set other \<and> c r (f r)" by metis
  then obtain f where f: "\<And>r. r \<in> set res \<Longrightarrow> f r \<in> set other \<and> c r (f r)" by blast
  have inj: "inj_on f (set res)"
  proof (rule inj_onI)
    fix r1 r2 assume r: "r1 \<in> set res" "r2 \<in> set res" and e: "f r1 = f r2"
    from f [OF r(1)] f [OF r(2)] e have a: "c r1 (f r1)" and b: "c r2 (f r1)" by auto
    from sympD [OF s b] have "c (f r1) r2" .
    from transpD [OF t a this] have "c r1 r2" .
    with pw r show "r1 = r2" by blast
  qed
  have sub: "f ` set res \<subseteq> set other" using f by auto
  have "card (f ` set res) = length res" using inj d by (simp add: card_image distinct_card)
  moreover have "card (set other) \<le> length other" by (rule card_length)
  ultimately have "card (set other) \<le> card (f ` set res)" using len by simp
  with sub have "f ` set res = set other" by (simp add: card_seteq)
  with y have "y \<in> f ` set res" by simp
  then obtain r where "r \<in> set res" "y = f r" by (rule imageE)
  with f [of r] show ?thesis by auto
qed

lemma interLoop_skip:
  "\<forall>x\<in>set rest. arrayIncludesWith other x c \<longrightarrow> arrayIncludesWith res x c
   \<Longrightarrow> interLoop other c rest res = res"
  by (induction rest) auto

lemma baseIntersection_interLoop:
  assumes s: "symp c" and t: "transp c"
  shows "distinct res \<Longrightarrow> \<forall>r\<in>set res. \<exists>y\<in>set other. c r y
    \<Longrightarrow> \<forall>r1\<in>set res. \<forall>r2\<in>set res. c r1 r2 \<longrightarrow> r1 = r2
    \<Longrightarrow> length res + length rest \<le> n
    \<Longrightarrow> baseIntersection (min n (length other)) other c rest res = interLoop other c rest res"
proof (induction rest arbitrary: res)
  case Nil then show ?case by simp
next
  case (Cons v rest)
  show ?case
  proof (cases "length res < min n (length other)")
    case True
    show ?thesis
    proof (cases "\<not> arrayIncludesWith res v c \<and> arrayIncludesWith other v c")
      case add: True
      then obtain y where y: "y \<in> set other" "c v y" by (auto simp: includes_iff)
      from per_refl [OF s t y(2)] have vv: "c v v" .
      from add have no: "\<forall>r\<in>set res. \<not> c v r" by (simp add: includes_iff)
      with vv have "v \<notin> set res" by blast
      with Cons.prems(1) have d: "distinct (res @ [v])" by simp
      from Cons.prems(2) y have cp: "\<forall>r\<in>set (res @ [v]). \<exists>y\<in>set other. c r y" by auto
      have pw: "\<forall>r1\<in>set (res @ [v]). \<forall>r2\<in>set (res @ [v]). c r1 r2 \<longrightarrow> r1 = r2"
      proof (intro ballI impI)
        fix r1 r2 assume r: "r1 \<in> set (res @ [v])" "r2 \<in> set (res @ [v])" and c12: "c r1 r2"
        show "r1 = r2"
        proof (cases "r1 = v")
          case r1: True
          show ?thesis
          proof (cases "r2 = v")
            case True with r1 show ?thesis by simp
          next
            case False
            with r have "r2 \<in> set res" by simp
            with no c12 r1 show ?thesis by blast
          qed
        next
          case r1: False
          with r have m1: "r1 \<in> set res" by simp
          show ?thesis
          proof (cases "r2 = v")
            case True
            with c12 have "c v r1" using per_sym [OF s] by blast
            with no m1 show ?thesis by blast
          next
            case False
            with r have "r2 \<in> set res" by simp
            with Cons.prems(3) m1 c12 show ?thesis by blast
          qed
        qed
      qed
      from Cons.prems(4) have len: "length (res @ [v]) + length rest \<le> n" by simp
      from Cons.IH [OF d cp pw len] True add show ?thesis by simp
    next
      case False
      from Cons.prems(4) have len: "length res + length rest \<le> n" by simp
      from Cons.IH [OF Cons.prems(1-3) len] True False show ?thesis by auto
    qed
  next
    case False
    with Cons.prems(4) have len: "length other \<le> length res" by simp
    have "\<forall>x\<in>set (v # rest). arrayIncludesWith other x c \<longrightarrow> arrayIncludesWith res x c"
    proof (intro ballI impI)
      fix x assume "x \<in> set (v # rest)" and "arrayIncludesWith other x c"
      then obtain y where y: "y \<in> set other" "c x y" by (auto simp: includes_iff)
      from full_result_covers [OF s t Cons.prems(1-3) len y(1)]
      obtain r where r: "r \<in> set res" "c r y" by blast
      from per_join [OF s t y(2) r(2)] have "c x r" .
      with r(1) show "arrayIncludesWith res x c" by (auto simp: includes_iff)
    qed
    then have "interLoop other c (v # rest) res = res" by (rule interLoop_skip)
    moreover from False have "baseIntersection (min n (length other)) other c (v # rest) res = res"
      by (simp only: baseIntersection.simps if_False)
    ultimately show ?thesis by simp
  qed
qed

lemma intersectionWith_interLoop:
  "symp c \<Longrightarrow> transp c \<Longrightarrow> intersectionWith xs ys c = interLoop ys c xs []"
  unfolding intersectionWith_def
  by (rule baseIntersection_interLoop) simp_all

lemma hasKey_differenceWith:
  assumes s: "symp c" and t: "transp c"
  shows "hasKey c k (differenceWith xs ys c) = (hasKey c k xs \<and> \<not> hasKey c k ys)"
proof
  assume "hasKey c k (differenceWith xs ys c)"
  then obtain x where x: "x \<in> set xs" "c x k" "\<forall>y\<in>set ys. \<not> c x y"
    by (auto simp: hasKey_iff differenceWith_def includes_iff)
  have "\<not> hasKey c k ys"
  proof
    assume "hasKey c k ys"
    then obtain y where y: "y \<in> set ys" "c y k" by (auto simp: hasKey_iff)
    from per_join [OF s t x(2) y(2)] x(3) y(1) show False by blast
  qed
  with x show "hasKey c k xs \<and> \<not> hasKey c k ys" by (auto simp: hasKey_iff)
next
  assume a: "hasKey c k xs \<and> \<not> hasKey c k ys"
  then obtain x where x: "x \<in> set xs" "c x k" by (auto simp: hasKey_iff)
  have "\<forall>y\<in>set ys. \<not> c x y"
  proof (intro ballI notI)
    fix y assume y: "y \<in> set ys" "c x y"
    from per_trans [OF t per_sym [OF s y(2)] x(2)] have "c y k" .
    with y(1) a show False by (auto simp: hasKey_iff)
  qed
  with x show "hasKey c k (differenceWith xs ys c)"
    by (auto simp: hasKey_iff differenceWith_def includes_iff)
qed

lemma hasKey_intersectionWith:
  assumes s: "symp c" and t: "transp c"
  shows "hasKey c k (intersectionWith xs ys c) = (hasKey c k xs \<and> hasKey c k ys)"
proof
  assume "hasKey c k (intersectionWith xs ys c)"
  then obtain x where x: "x \<in> set (interLoop ys c xs [])" "c x k"
    by (auto simp: hasKey_iff intersectionWith_interLoop [OF s t])
  from interLoop_subset [OF x(1)] obtain y where y: "x \<in> set xs" "y \<in> set ys" "c x y"
    by (auto simp: includes_iff)
  from per_trans [OF t per_sym [OF s y(3)] x(2)] have "c y k" .
  with x y show "hasKey c k xs \<and> hasKey c k ys" by (auto simp: hasKey_iff)
next
  assume "hasKey c k xs \<and> hasKey c k ys"
  then obtain x y where x: "x \<in> set xs" "c x k" and y: "y \<in> set ys" "c y k"
    by (auto simp: hasKey_iff)
  from per_join [OF s t x(2) y(2)] y(1) have "arrayIncludesWith ys x c"
    by (auto simp: includes_iff)
  from interLoop_covers [OF s t x(1) this, of "[]"]
  obtain r where r: "r \<in> set (interLoop ys c xs [])" "c x r" by (auto simp: includes_iff)
  from per_trans [OF t per_sym [OF s r(2)] x(2)] have "c r k" .
  with r(1) show "hasKey c k (intersectionWith xs ys c)"
    by (auto simp: hasKey_iff intersectionWith_interLoop [OF s t])
qed

lemma default_comparer_per:
  "symp defaultEqualityComparer" "transp defaultEqualityComparer"
  by (auto simp: symp_def transp_def defaultEqualityComparer_def)

text \<open>
  C1.  For a key comparer that is symmetric and transitive (the default \<open>===\<close> is), and
  any previous and current key lists: a key has a counterpart in the previous or the
  current key list exactly when it has one in \<open>goneKeys\<close>, \<open>newKeys\<close> or \<open>sameKeys\<close>;
  the old-side and the new-side list of \<open>sameKeys\<close> hold the same keys; and no key has a
  counterpart in two of the three sets.
\<close>

theorem key_sets_partition:
  assumes "symp (keyComparer w)" "transp (keyComparer w)"
  shows "((hasKey (keyComparer w) k (lastKeyList w) \<or> hasKey (keyComparer w) k ks)
           = (hasKey (keyComparer w) k (goneKeysOf w ks) \<or> hasKey (keyComparer w) k (newKeysOf w ks)
              \<or> hasKey (keyComparer w) k (oldSameKeysOf w ks)))
       \<and> hasKey (keyComparer w) k (newSameKeysOf w ks) = hasKey (keyComparer w) k (oldSameKeysOf w ks)
       \<and> \<not> (hasKey (keyComparer w) k (goneKeysOf w ks) \<and> hasKey (keyComparer w) k (newKeysOf w ks))
       \<and> \<not> (hasKey (keyComparer w) k (goneKeysOf w ks) \<and> hasKey (keyComparer w) k (oldSameKeysOf w ks))
       \<and> \<not> (hasKey (keyComparer w) k (newKeysOf w ks) \<and> hasKey (keyComparer w) k (oldSameKeysOf w ks))"
  unfolding goneKeysOf_def newKeysOf_def oldSameKeysOf_def newSameKeysOf_def
    hasKey_differenceWith [OF assms] hasKey_intersectionWith [OF assms]
  by blast

theorem key_sets_partition_witness:
  "symp (keyComparer exampleWatching) \<and> transp (keyComparer exampleWatching)
   \<and> goneKeysOf (exampleWatching\<lparr> lastKeyList := [VNum 1, VNum 2] \<rparr>) [VNum 2, VNum 3] = [VNum 1]
   \<and> newKeysOf (exampleWatching\<lparr> lastKeyList := [VNum 1, VNum 2] \<rparr>) [VNum 2, VNum 3] = [VNum 3]
   \<and> oldSameKeysOf (exampleWatching\<lparr> lastKeyList := [VNum 1, VNum 2] \<rparr>) [VNum 2, VNum 3] = [VNum 2]
   \<and> \<not> (hasKey defaultEqualityComparer (VNum 2)
             (goneKeysOf (exampleWatching\<lparr> lastKeyList := [VNum 1, VNum 2] \<rparr>) [VNum 2, VNum 3])
          \<and> hasKey defaultEqualityComparer (VNum 2)
             (oldSameKeysOf (exampleWatching\<lparr> lastKeyList := [VNum 1, VNum 2] \<rparr>) [VNum 2, VNum 3]))"
proof -
  have k: "keyComparer (exampleWatching\<lparr> lastKeyList := [VNum 1, VNum 2] \<rparr>) = defaultEqualityComparer"
    "keyComparer exampleWatching = defaultEqualityComparer"
    by (simp_all add: exampleWatching_def Watcher_def split: prod.splits)
  have s: "symp (keyComparer (exampleWatching\<lparr> lastKeyList := [VNum 1, VNum 2] \<rparr>))"
    and t: "transp (keyComparer (exampleWatching\<lparr> lastKeyList := [VNum 1, VNum 2] \<rparr>))"
    unfolding k by (rule default_comparer_per)+
  have e: "goneKeysOf (exampleWatching\<lparr> lastKeyList := [VNum 1, VNum 2] \<rparr>) [VNum 2, VNum 3] = [VNum 1]"
    "newKeysOf (exampleWatching\<lparr> lastKeyList := [VNum 1, VNum 2] \<rparr>) [VNum 2, VNum 3] = [VNum 3]"
    "oldSameKeysOf (exampleWatching\<lparr> lastKeyList := [VNum 1, VNum 2] \<rparr>) [VNum 2, VNum 3] = [VNum 2]"
    unfolding goneKeysOf_def newKeysOf_def oldSameKeysOf_def k
    by (simp_all add: differenceWith_def intersectionWith_def arrayIncludesWith_def
        defaultEqualityComparer_def)
  from key_sets_partition [OF s t, of "VNum 2" "[VNum 2, VNum 3]"] k e default_comparer_per
  show ?thesis by simp
qed

section \<open>What a pass leaves alone\<close>

lemma stable_fields:
  assumes "stable w' = stable w"
  shows "lastKeyList w' = lastKeyList w" "lastNodeList w' = lastNodeList w"
    "lastCallbackMap w' = lastCallbackMap w" "lastVirtualNodesMap w' = lastVirtualNodesMap w"
    "keyComparer w' = keyComparer w" "valueComparer w' = valueComparer w"
    "mapNodeToKey w' = mapNodeToKey w" "useForeachFn w' = useForeachFn w"
    "singleMode w' = singleMode w" "firstVirtualNode w' = firstVirtualNode w"
    "listeningIteration w' = listeningIteration w" "listeningChange w' = listeningChange w"
    "listeningRemove w' = listeningRemove w" "listeningAdd w' = listeningAdd w"
    "isWatcherCheckerRunning w' = isWatcherCheckerRunning w"
    "needCheckerRunAgainAfterCurrentSchedule w' = needCheckerRunAgainAfterCurrentSchedule w"
    "checkerRuns w' = checkerRuns w" "warning_single_mode w' = warning_single_mode w"
    "singleModeHasLastValue w' = singleModeHasLastValue w"
    "singleModeLastValue w' = singleModeLastValue w"
    "singleModeCallback w' = singleModeCallback w"
    "filter (\<lambda>e. e = ConsoleWarn MsgSingleMode) (effects w')
       = filter (\<lambda>e. e = ConsoleWarn MsgSingleMode) (effects w)"
  using arg_cong [OF assms, of lastKeyList] arg_cong [OF assms, of lastNodeList]
    arg_cong [OF assms, of lastCallbackMap] arg_cong [OF assms, of lastVirtualNodesMap]
    arg_cong [OF assms, of keyComparer] arg_cong [OF assms, of valueComparer]
    arg_cong [OF assms, of mapNodeToKey] arg_cong [OF assms, of useForeachFn]
    arg_cong [OF assms, of singleMode] arg_cong [OF assms, of firstVirtualNode]
    arg_cong [OF assms, of listeningIteration] arg_cong [OF assms, of listeningChange]
    arg_cong [OF assms, of listeningRemove] arg_cong [OF assms, of listeningAdd]
    arg_cong [OF assms, of isWatcherCheckerRunning]
    arg_cong [OF assms, of needCheckerRunAgainAfterCurrentSchedule]
    arg_cong [OF assms, of checkerRuns] arg_cong [OF assms, of warning_single_mode]
    arg_cong [OF assms, of singleModeHasLastValue] arg_cong [OF assms, of singleModeLastValue]
    arg_cong [OF assms, of singleModeCallback] arg_cong [OF assms, of effects]
  by (simp_all add: stable_def)

lemma stable_upd [simp]:
  "stable (w\<lparr> page := d \<rparr>) = stable w" "stable (w\<lparr> handles := hs \<rparr>) = stable w"
  "stable (w\<lparr> nextHandle := n \<rparr>) = stable w" "stable (w\<lparr> idle := q \<rparr>) = stable w"
  "stable (w\<lparr> isWatching := b \<rparr>) = stable w" "stable (w\<lparr> waiters := ws \<rparr>) = stable w"
  "stable (w\<lparr> warning_repeated_keys := obj \<rparr>) = stable w"
  by (simp_all add: stable_def)

lemma stable_emit [simp]: "e \<noteq> ConsoleWarn MsgSingleMode \<Longrightarrow> stable (emit e w) = stable w"
  by (simp add: stable_def emit_def)

lemma stable_rebind: "rebind h n w = Inr w' \<Longrightarrow> stable w' = stable w"
  by (auto simp: rebind_def stable_def split: sum.splits prod.splits)

lemma stable_newHandle: "newHandle w = (h, w') \<Longrightarrow> stable w' = stable w"
  by (auto simp: newHandle_def stable_def split: prod.splits)

lemma stable_addNode:
  "addNode f cur keys k (w, m) = Inr (w', m') \<Longrightarrow> stable w' = stable w"
  by (auto simp: addNode_def Let_def applyWarnMutation_def
      dest!: stable_rebind stable_newHandle split: sum.splits prod.splits jsval.splits option.splits)

lemma stable_addNodes:
  "addNodes f cur keys ks (w, m) = Inr (w', m') \<Longrightarrow> stable w' = stable w"
proof (induction ks arbitrary: w m)
  case Nil then show ?case by simp
next
  case (Cons k ks)
  then show ?case
    by (auto split: sum.splits dest!: stable_addNode) 
qed

lemma stable_keyIsNew:
  "keyIsNew cur keys w = Inr (w', m') \<Longrightarrow> stable w' = stable w"
  by (auto simp: keyIsNew_def split: option.splits dest: stable_addNodes)

lemma stable_applyTargetChange [simp]: "stable (applyTargetChange c a b w) = stable w"
  by (simp add: applyTargetChange_def split: option.splits)

lemma stable_applyRemove [simp]: "stable (applyRemove c a w) = stable w"
  by (simp add: applyRemove_def split: option.splits)

lemma stable_changeNode: "changeNode entry w = Inr w' \<Longrightarrow> stable w' = stable w"
  by (auto simp: changeNode_def Let_def split: prod.splits jsval.splits option.splits sum.splits
      dest!: stable_rebind)

lemma stable_changeNodes: "changeNodes entries w = Inr w' \<Longrightarrow> stable w' = stable w"
proof (induction entries arbitrary: w)
  case Nil then show ?case by simp
next
  case (Cons entry entries)
  then show ?case by (auto split: sum.splits dest!: stable_changeNode)
qed

lemma stable_scheduleRemovals [simp]: "stable (scheduleRemovals ks w) = stable w"
proof (induction ks arbitrary: w)
  case Nil then show ?case by simp
next
  case (Cons k ks)
  show ?case by (simp add: Cons.IH)
qed

lemma stable_warnRepeatedKeys [simp]: "stable (warnRepeatedKeys ks w) = stable w"
  by (auto simp: warnRepeatedKeys_def split: prod.splits)

lemma stable_stopWatch [simp]: "stable (stopWatch w) = stable w"
  by (simp add: stable_def stopWatch_def)

lemma stable_resolve [simp]: "stable (resolve wt v w) = stable w"
  by (simp add: resolve_def)

lemma stable_runWaiter [simp]: "stable (runWaiter nodes wt w) = stable w"
  by (simp add: runWaiter_def Let_def)

lemma stable_runWaiters [simp]: "stable (runWaiters nodes wts w) = stable w"
  by (induction wts arbitrary: w) simp_all

lemma stable_emitAll: "ConsoleWarn MsgSingleMode \<notin> set es \<Longrightarrow> stable (emitAll es w) = stable w"
  by (induction es arbitrary: w) auto

lemma stable_emitAll_events [simp]:
  "stable (emitAll (map (\<lambda>(a, b, c, d). EmitChange a b c d) xs) w) = stable w"
  "stable (emitAll (map (\<lambda>k. EmitRemove k (f k)) ks) w) = stable w"
  "stable (emitAll (map (\<lambda>k. EmitAdd k (f k)) ks) w) = stable w"
  by (rule stable_emitAll, auto)+

lemma stable_emitEvents [simp]: "stable (emitEvents w0 cur keys changed w) = stable w"
  by (simp add: emitEvents_def Let_def)

lemma stable_updateFirst: "updateFirst cur w = Inr w' \<Longrightarrow> stable w' = stable w"
  by (auto simp: updateFirst_def split: jsval.splits dest: stable_rebind)

lemma sched_stable: "stable w' = stable w \<Longrightarrow> sched w' = sched w"
  using stable_fields(15-17) [of w' w] by (simp add: sched_def)

lemma sched_promptSingleMode [simp]: "sched (promptSingleMode cur w) = sched w"
  by (auto simp: promptSingleMode_def Let_def sched_def emit_def split: prod.splits)

lemma normal_pass_steps:
  assumes "normalModeWatcherCallback cur w = Inr w'"
  obtains w3 maps w4 w7 where
    "keyIsNew cur (thisKeyListOf w cur)
       (scheduleRemovals (goneKeysOf (warnRepeatedKeys (thisKeyListOf w cur) w) (thisKeyListOf w cur))
          (warnRepeatedKeys (thisKeyListOf w cur) w)) = Inr (w3, maps)"
    "changeNodes (changedNodesOf w3 cur (thisKeyListOf w cur)) w3 = Inr w4"
    "updateFirst cur
       (emitEvents w4 cur (thisKeyListOf w cur) (changedNodesOf w3 cur (thisKeyListOf w cur))
          (storeGeneration cur (thisKeyListOf w cur)
             (copySameKeys w4 (oldSameKeysOf w4 (thisKeyListOf w cur))
                (newSameKeysOf w4 (thisKeyListOf w cur)) maps) w4)) = Inr w7"
    "w' = promptSingleMode cur w7"
proof (cases "keyIsNew cur (thisKeyListOf w cur)
       (scheduleRemovals (goneKeysOf (warnRepeatedKeys (thisKeyListOf w cur) w) (thisKeyListOf w cur))
          (warnRepeatedKeys (thisKeyListOf w cur) w))")
  case (Inl e)
  with assms show ?thesis by (simp add: normalModeWatcherCallback_def Let_def)
next
  case (Inr st)
  obtain w3 maps where st: "st = (w3, maps)" by (cases st)
  show ?thesis
  proof (cases "changeNodes (changedNodesOf w3 cur (thisKeyListOf w cur)) w3")
    case (Inl e)
    with assms Inr st show ?thesis by (simp add: normalModeWatcherCallback_def Let_def)
  next
    case c: (Inr w4)
    show ?thesis
    proof (cases "updateFirst cur
       (emitEvents w4 cur (thisKeyListOf w cur) (changedNodesOf w3 cur (thisKeyListOf w cur))
          (storeGeneration cur (thisKeyListOf w cur)
             (copySameKeys w4 (oldSameKeysOf w4 (thisKeyListOf w cur))
                (newSameKeysOf w4 (thisKeyListOf w cur)) maps) w4))")
      case (Inl e)
      with assms Inr st c show ?thesis by (simp add: normalModeWatcherCallback_def Let_def)
    next
      case u: (Inr w7)
      with assms Inr st c have "w' = promptSingleMode cur w7"
        by (simp add: normalModeWatcherCallback_def Let_def)
      with that Inr st c u show ?thesis by blast
    qed
  qed
qed

lemma sched_storeGeneration [simp]: "sched (storeGeneration cur keys maps w) = sched w"
  by (simp add: sched_def storeGeneration_def)

lemma sched_normal:
  assumes "normalModeWatcherCallback cur w = Inr w'"
  shows "sched w' = sched w"
proof -
  from assms obtain w3 maps w4 w7 where
    k: "keyIsNew cur (thisKeyListOf w cur)
       (scheduleRemovals (goneKeysOf (warnRepeatedKeys (thisKeyListOf w cur) w) (thisKeyListOf w cur))
          (warnRepeatedKeys (thisKeyListOf w cur) w)) = Inr (w3, maps)"
    and c: "changeNodes (changedNodesOf w3 cur (thisKeyListOf w cur)) w3 = Inr w4"
    and u: "updateFirst cur
       (emitEvents w4 cur (thisKeyListOf w cur) (changedNodesOf w3 cur (thisKeyListOf w cur))
          (storeGeneration cur (thisKeyListOf w cur)
             (copySameKeys w4 (oldSameKeysOf w4 (thisKeyListOf w cur))
                (newSameKeysOf w4 (thisKeyListOf w cur)) maps) w4)) = Inr w7"
    and w': "w' = promptSingleMode cur w7"
    by (rule normal_pass_steps)
  have "stable w3 = stable w" using stable_keyIsNew [OF k] by simp
  then have "sched w3 = sched w" by (rule sched_stable)
  moreover have "sched w4 = sched w3" using stable_changeNodes [OF c] by (rule sched_stable)
  moreover have "sched w7 = sched w4"
  proof -
    have "stable w7 = stable (storeGeneration cur (thisKeyListOf w cur)
             (copySameKeys w4 (oldSameKeysOf w4 (thisKeyListOf w cur))
                (newSameKeysOf w4 (thisKeyListOf w cur)) maps) w4)"
      using stable_updateFirst [OF u] by simp
    then have "sched w7 = sched (storeGeneration cur (thisKeyListOf w cur)
             (copySameKeys w4 (oldSameKeysOf w4 (thisKeyListOf w cur))
                (newSameKeysOf w4 (thisKeyListOf w cur)) maps) w4)"
      by (rule sched_stable)
    then show ?thesis by simp
  qed
  ultimately show ?thesis using w' by simp
qed

lemma sched_emit [simp]: "sched (emit e w) = sched w"
  by (simp add: sched_def emit_def)

lemma sched_rebind: "rebind h n w = Inr w' \<Longrightarrow> sched w' = sched w"
  by (rule sched_stable [OF stable_rebind])

lemma sched_bindFirst: "bindFirst v w = Inr w' \<Longrightarrow> sched w' = sched w"
  by (auto simp: bindFirst_def split: sum.splits if_splits jsval.splits dest!: sched_rebind)

lemma sched_single_upd [simp]:
  "sched (w\<lparr> singleModeLastValue := a, singleModeHasLastValue := b \<rparr>) = sched w"
  "sched (w\<lparr> singleModeCallback := c \<rparr>) = sched w"
  by (simp_all add: sched_def)

lemma sched_applyRemove [simp]: "sched (applyRemove c a w) = sched w"
  by (simp add: applyRemove_def split: option.splits)

lemma sched_applyTargetChange [simp]: "sched (applyTargetChange c a b w) = sched w"
  by (simp add: applyTargetChange_def split: option.splits)

lemma sched_valueIsGone: "valueIsGone w = Inr w' \<Longrightarrow> sched w' = sched w"
  by (auto simp: valueIsGone_def Let_def split: sum.splits if_splits dest!: sched_rebind)

lemma sched_valueIsNew: "valueIsNew v w = Inr w' \<Longrightarrow> sched w' = sched w"
  by (auto simp: valueIsNew_def applyWarnMutation_def split: sum.splits if_splits option.splits)

lemma sched_valueHasChanged [simp]: "sched (valueHasChanged v w) = sched w"
  by (simp add: valueHasChanged_def)

lemma sched_single:
  assumes "singleModeWatcherCallback v w = Inr w'"
  shows "sched w' = sched w"
  using assms
  by (auto simp: singleModeWatcherCallback_def split: sum.splits if_splits
      dest!: sched_bindFirst sched_valueIsGone sched_valueIsNew)

section \<open>The handle of a key that stays\<close>

lemma find_mapSet:
  "find P (map fst (mapSet k v m))
     = (case find P (map fst m) of Some x \<Rightarrow> Some x | None \<Rightarrow> if P k then Some k else None)"
  by (induction m) (auto split: option.splits)

lemma map_of_mapSet: "map_of (mapSet k v m) k' = (if k' = k then Some v else map_of m k')"
  by (induction m) auto

lemma find_append:
  "find P (xs @ ys) = (case find P xs of Some x \<Rightarrow> Some x | None \<Rightarrow> find P ys)"
  by (induction xs) auto

lemma find_filter_same: "\<forall>x\<in>set xs. P x \<longrightarrow> Q x \<Longrightarrow> find P (filter Q xs) = find P xs"
  by (induction xs) auto

lemma per_pred:
  assumes "symp c" "transp c" "c a b"
  shows "(\<lambda>x. c x a) = (\<lambda>x. c x b)"
proof
  fix x
  show "c x a = c x b"
    using per_trans [OF assms(2) _ assms(3)] per_trans [OF assms(2) _ per_sym [OF assms(1) assms(3)]]
    by blast
qed

lemma per_flip: "symp c \<Longrightarrow> (\<lambda>x. c k x) = (\<lambda>x. c x k)"
  by (auto simp: fun_eq_iff dest: per_sym)

lemma find_interLoop:
  assumes s: "symp c" and t: "transp c" and o: "\<exists>y\<in>set other. c y k"
  shows "\<forall>r\<in>set res. \<not> c r k
    \<Longrightarrow> find (\<lambda>x. c x k) (interLoop other c rest res) = find (\<lambda>x. c x k) rest"
proof (induction rest arbitrary: res)
  case Nil
  then show ?case by (simp add: find_None_iff)
next
  case (Cons v rest)
  from o obtain y where y: "y \<in> set other" "c y k" by blast
  show ?case
  proof (cases "c v k")
    case True
    have "\<not> arrayIncludesWith res v c"
    proof
      assume "arrayIncludesWith res v c"
      then obtain r where r: "r \<in> set res" "c v r" by (auto simp: includes_iff)
      from per_trans [OF t per_sym [OF s r(2)] True] Cons.prems r(1) show False by blast
    qed
    moreover from per_join [OF s t True y(2)] y(1) have "arrayIncludesWith other v c"
      by (auto simp: includes_iff)
    ultimately have e: "interLoop other c (v # rest) res = interLoop other c rest (res @ [v])"
      by simp
    from interLoop_prefix [of other c rest "res @ [v]"] obtain ys where
      "interLoop other c rest (res @ [v]) = (res @ [v]) @ ys" ..
    with e have "find (\<lambda>x. c x k) (interLoop other c (v # rest) res)
       = find (\<lambda>x. c x k) (res @ v # ys)" by simp
    also have "\<dots> = Some v"
    proof -
      from Cons.prems have "find (\<lambda>x. c x k) res = None" by (simp add: find_None_iff)
      with True show ?thesis by (simp add: find_append)
    qed
    finally show ?thesis using True by simp
  next
    case False
    have "find (\<lambda>x. c x k) (interLoop other c (v # rest) res) = find (\<lambda>x. c x k) rest"
    proof (cases "\<not> arrayIncludesWith res v c \<and> arrayIncludesWith other v c")
      case True
      from Cons.prems False have "\<forall>r\<in>set (res @ [v]). \<not> c r k" by simp
      from Cons.IH [OF this] True show ?thesis by simp
    next
      case no: False
      from Cons.IH [OF Cons.prems] no show ?thesis by auto
    qed
    with False show ?thesis by simp
  qed
qed

lemma find_intersectionWith:
  assumes s: "symp c" and t: "transp c" and o: "hasKey c k ys"
  shows "find (\<lambda>x. c x k) (intersectionWith xs ys c) = find (\<lambda>x. c x k) xs"
  unfolding intersectionWith_interLoop [OF s t]
  by (rule find_interLoop [OF s t]) (use o in \<open>simp_all add: hasKey_iff\<close>)

lemma find_differenceWith:
  assumes s: "symp c" and t: "transp c" and o: "\<not> hasKey c k ys"
  shows "find (\<lambda>x. c x k) (differenceWith xs ys c) = find (\<lambda>x. c x k) xs"
  unfolding differenceWith_def
proof (rule find_filter_same, intro ballI impI notI)
  fix x assume "x \<in> set xs" "c x k" "arrayIncludesWith ys x c"
  then obtain y where y: "y \<in> set ys" "c x y" by (auto simp: includes_iff)
  from per_trans [OF t per_sym [OF s y(2)] \<open>c x k\<close>] y(1) o show False
    by (auto simp: hasKey_iff)
qed

lemma set_mapSet: "fst ` set (mapSet k v m) = insert k (fst ` set m)"
proof (induction m)
  case Nil
  then show ?case by simp
next
  case (Cons e m)
  obtain a b where e: "e = (a, b)" by (cases e)
  show ?case
  proof (cases "a = k")
    case True
    with e show ?thesis by simp
  next
    case False
    with e Cons show ?thesis by (simp add: insert_commute)
  qed
qed

lemma findFromNew_stable:
  assumes "stable w' = stable w"
  shows "findFromNew w' = findFromNew w"
proof (intro ext)
  fix cur keys k
  show "findFromNew w' cur keys k = findFromNew w cur keys k"
    by (simp add: findFromNew_def stable_fields(5) [OF assms])
qed

lemma bindable_stable:
  assumes "stable w' = stable w"
  shows "bindable w' = bindable w"
proof (intro ext)
  fix cur keys k
  show "bindable w' cur keys k = bindable w cur keys k"
    by (simp add: bindable_def findFromNew_stable [OF assms])
qed

lemma addNode_keys:
  assumes "addNode f cur keys k (w, cm, vm) = Inr (w', cm', vm')"
  shows "map fst vm' = map fst (if bindable w cur keys k then mapSet k None vm else vm)"
proof (cases "findFromNew w cur keys k")
  case (VNode n)
  with assms obtain h where "vm' = mapSet k (Some h) vm"
    by (auto simp: addNode_def Let_def split: prod.splits sum.splits)
  moreover have "map fst (mapSet k (Some h) vm) = map fst (mapSet k None vm)"
    by (induction vm) auto
  ultimately show ?thesis using VNode by (simp add: bindable_def)
qed (use assms in \<open>auto simp: addNode_def Let_def bindable_def split: sum.splits\<close>)

lemma addNodes_keys:
  "addNodes f cur keys ks (w, cm, vm) = Inr (w', cm', vm')
   \<Longrightarrow> find P (map fst vm')
       = (case find P (map fst vm) of Some x \<Rightarrow> Some x
          | None \<Rightarrow> find P (filter (bindable w cur keys) ks))
     \<and> fst ` set vm' = fst ` set vm \<union> set (filter (bindable w cur keys) ks)"
proof (induction ks arbitrary: w cm vm)
  case Nil
  then show ?case by (simp split: option.splits)
next
  case (Cons k ks)
  from Cons.prems obtain w1 cm1 vm1 where
    a: "addNode f cur keys k (w, cm, vm) = Inr (w1, cm1, vm1)"
    and r: "addNodes f cur keys ks (w1, cm1, vm1) = Inr (w', cm', vm')"
    by (auto split: sum.splits)
  from stable_addNode [OF a] have b: "bindable w1 = bindable w" by (rule bindable_stable)
  note k1 = addNode_keys [OF a]
  from Cons.IH [OF r] have
    ih: "find P (map fst vm')
       = (case find P (map fst vm1) of Some x \<Rightarrow> Some x
          | None \<Rightarrow> find P (filter (bindable w cur keys) ks))"
      "fst ` set vm' = fst ` set vm1 \<union> set (filter (bindable w cur keys) ks)"
    unfolding b by simp_all
  show ?case
  proof (cases "bindable w cur keys k")
    case True
    with k1 have m1: "map fst vm1 = map fst (mapSet k None vm)" by simp
    from arg_cong [OF m1, of set] have s1: "fst ` set vm1 = insert k (fst ` set vm)"
      by (simp add: set_mapSet)
    from ih(1) True have "find P (map fst vm')
       = (case find P (map fst vm) of Some x \<Rightarrow> Some x
          | None \<Rightarrow> find P (filter (bindable w cur keys) (k # ks)))"
      unfolding m1 by (simp add: find_mapSet split: option.splits)
    moreover from ih(2) True have
      "fst ` set vm' = fst ` set vm \<union> set (filter (bindable w cur keys) (k # ks))"
      unfolding s1 by auto
    ultimately show ?thesis by simp
  next
    case False
    with k1 have m1: "map fst vm1 = map fst vm" by simp
    from arg_cong [OF m1, of set] have s1: "fst ` set vm1 = fst ` set vm" by simp
    from ih False show ?thesis unfolding m1 s1 by (simp split: option.splits)
  qed
qed

lemma keyIsNew_keys:
  assumes "keyIsNew cur keys w = Inr (w', cm, vm)"
  shows "\<exists>B. set B \<subseteq> set (filter (bindable w cur keys) (newKeysOf w keys))
     \<and> (B = [] \<or> B = filter (bindable w cur keys) (newKeysOf w keys))
     \<and> (\<forall>P. find P (map fst vm) = find P B) \<and> fst ` set vm = set B"
proof (cases "useForeachFn w")
  case None
  with assms have "vm = []" by (simp add: keyIsNew_def)
  then show ?thesis by (intro exI [of _ "[]"]) simp
next
  case (Some f)
  with assms have "addNodes f cur keys (newKeysOf w keys) (w, [], []) = Inr (w', cm, vm)"
    by (simp add: keyIsNew_def)
  from addNodes_keys [OF this] show ?thesis
    by (intro exI [of _ "filter (bindable w cur keys) (newKeysOf w keys)"]) simp
qed

lemma copySameKeys_keys:
  "find P (map fst (snd (copySameKeys w olds news (cm, vm))))
     = (case find P (map fst vm) of Some x \<Rightarrow> Some x | None \<Rightarrow> find P news)
   \<and> fst ` set (snd (copySameKeys w olds news (cm, vm))) = fst ` set vm \<union> set news"
proof (induction news arbitrary: cm vm)
  case Nil
  then show ?case by (simp split: option.splits)
next
  case (Cons n news)
  show ?case
    by (auto simp add: Let_def Cons.IH find_mapSet set_mapSet split: option.splits)
qed

lemma copySameKeys_value:
  "map_of (snd (copySameKeys w olds news (cm, vm))) n
     = (if n \<in> set news
        then Some (getVirtualNode (lastVirtualNodesMap w)
               (findOr (\<lambda>oldKey. keyComparer w n oldKey) olds))
        else map_of vm n)"
proof (induction news arbitrary: cm vm)
  case Nil
  then show ?case by simp
next
  case (Cons x news)
  show ?case by (simp add: Let_def Cons.IH map_of_mapSet)
qed

lemma bindable_class:
  assumes "symp (keyComparer w)" "transp (keyComparer w)" "keyComparer w x m"
  shows "bindable w cur keys x = bindable w cur keys m"
  using per_pred [OF assms]
  by (simp add: bindable_def findFromNew_def findNodeFromListByKey_def)

lemma find_Some_pred: "find P xs = Some x \<Longrightarrow> x \<in> set xs \<and> P x"
  by (induction xs) (auto split: if_splits)

lemma find_exists: "x \<in> set xs \<Longrightarrow> P x \<Longrightarrow> \<exists>y. find P xs = Some y"
  by (induction xs) auto

lemma pass_store:
  assumes "normalModeWatcherCallback cur w = Inr w'"
  obtains cm vm w4 where
    "stable w4 = stable w"
    "\<exists>B. (B = [] \<or> B = filter (bindable w cur (thisKeyListOf w cur)) (newKeysOf w (thisKeyListOf w cur)))
       \<and> (\<forall>P. find P (map fst vm) = find P B) \<and> fst ` set vm = set B"
    "lastVirtualNodesMap w' = snd (copySameKeys w4 (oldSameKeysOf w (thisKeyListOf w cur))
        (newSameKeysOf w (thisKeyListOf w cur)) (cm, vm))"
    "lastKeyList w' = thisKeyListOf w cur"
    "keyComparer w' = keyComparer w" "mapNodeToKey w' = mapNodeToKey w"
proof -
  let ?keys = "thisKeyListOf w cur"
  let ?w2 = "scheduleRemovals (goneKeysOf (warnRepeatedKeys ?keys w) ?keys) (warnRepeatedKeys ?keys w)"
  from assms obtain w3 maps w4 w7 where
    k: "keyIsNew cur ?keys ?w2 = Inr (w3, maps)"
    and c: "changeNodes (changedNodesOf w3 cur ?keys) w3 = Inr w4"
    and u: "updateFirst cur
       (emitEvents w4 cur ?keys (changedNodesOf w3 cur ?keys)
          (storeGeneration cur ?keys
             (copySameKeys w4 (oldSameKeysOf w4 ?keys) (newSameKeysOf w4 ?keys) maps) w4)) = Inr w7"
    and w': "w' = promptSingleMode cur w7"
    by (rule normal_pass_steps)
  obtain cm vm where maps: "maps = (cm, vm)" by (cases maps)
  have s2: "stable ?w2 = stable w" by simp
  have s3: "stable w3 = stable w" using stable_keyIsNew [OF k] by simp
  have s4: "stable w4 = stable w" using stable_changeNodes [OF c] s3 by simp
  note f2 = stable_fields [OF s2]
  note f4 = stable_fields [OF s4]
  have b2: "bindable ?w2 = bindable w" using s2 by (rule bindable_stable)
  have n2: "newKeysOf ?w2 ?keys = newKeysOf w ?keys" by (simp add: newKeysOf_def f2)
  from keyIsNew_keys [OF k [unfolded maps]] have
    B: "\<exists>B. (B = [] \<or> B = filter (bindable w cur ?keys) (newKeysOf w ?keys))
       \<and> (\<forall>P. find P (map fst vm) = find P B) \<and> fst ` set vm = set B"
    unfolding b2 n2 by auto
  let ?st = "storeGeneration cur ?keys
             (copySameKeys w4 (oldSameKeysOf w4 ?keys) (newSameKeysOf w4 ?keys) maps) w4"
  have s7: "stable w7 = stable ?st" using stable_updateFirst [OF u] by simp
  note f7 = stable_fields [OF s7]
  have pk: "lastKeyList (promptSingleMode cur w7) = lastKeyList w7"
    "lastVirtualNodesMap (promptSingleMode cur w7) = lastVirtualNodesMap w7"
    "keyComparer (promptSingleMode cur w7) = keyComparer w7"
    "mapNodeToKey (promptSingleMode cur w7) = mapNodeToKey w7"
    by (auto simp: promptSingleMode_def Let_def emit_def split: prod.splits)
  have o4: "oldSameKeysOf w4 ?keys = oldSameKeysOf w ?keys"
    "newSameKeysOf w4 ?keys = newSameKeysOf w ?keys"
    by (simp_all add: oldSameKeysOf_def newSameKeysOf_def f4)
  have l: "lastVirtualNodesMap w' = snd (copySameKeys w4 (oldSameKeysOf w ?keys)
        (newSameKeysOf w ?keys) (cm, vm))"
    unfolding w' pk f7 o4 [symmetric] maps [symmetric] by (simp add: storeGeneration_def)
  have kl: "lastKeyList w' = ?keys" unfolding w' pk f7 by (simp add: storeGeneration_def)
  have kc: "keyComparer w' = keyComparer w" unfolding w' pk f7
    by (simp add: storeGeneration_def f4)
  have mk: "mapNodeToKey w' = mapNodeToKey w" unfolding w' pk f7
    by (simp add: storeGeneration_def f4)
  from that [OF s4 B l kl kc mk] show ?thesis .
qed

lemma no_new_key_matches:
  assumes s: "symp c" and t: "transp c" and l: "hasKey c k olds"
    and B: "B = [] \<or> B = filter Q (differenceWith news olds c)"
  shows "find (\<lambda>x. c x k) B = None"
proof -
  have "\<not> hasKey c k (differenceWith news olds c)"
    using l by (simp add: hasKey_differenceWith [OF s t])
  then have "\<forall>x\<in>set (differenceWith news olds c). \<not> c x k" by (simp add: hasKey_iff)
  with B show ?thesis by (auto simp: find_None_iff)
qed

lemma carried_handle:
  assumes s: "symp (keyComparer w)" and t: "transp (keyComparer w)"
    and pass: "normalModeWatcherCallback cur w = Inr w'"
    and l: "hasKey (keyComparer w) k (lastKeyList w)"
    and n: "hasKey (keyComparer w) k (thisKeyListOf w cur)"
  shows "find (\<lambda>x. keyComparer w x k) (map fst (lastVirtualNodesMap w'))
           = find (\<lambda>x. keyComparer w x k) (thisKeyListOf w cur)"
    and "fst (getVirtualNodeByKey k w')
           = getVirtualNode (lastVirtualNodesMap w)
               (findOr (\<lambda>x. keyComparer w x k) (lastKeyList w))"
proof -
  let ?c = "keyComparer w" and ?keys = "thisKeyListOf w cur"
  let ?P = "\<lambda>x. keyComparer w x k"
  from pass obtain cm vm w4 where
    s4: "stable w4 = stable w"
    and B: "\<exists>B. (B = [] \<or> B = filter (bindable w cur ?keys) (newKeysOf w ?keys))
       \<and> (\<forall>P. find P (map fst vm) = find P B) \<and> fst ` set vm = set B"
    and lv: "lastVirtualNodesMap w' = snd (copySameKeys w4 (oldSameKeysOf w ?keys)
        (newSameKeysOf w ?keys) (cm, vm))"
    and kc: "keyComparer w' = keyComparer w"
    by (rule pass_store)
  note f4 = stable_fields [OF s4]
  from B obtain B where B1: "B = [] \<or> B = filter (bindable w cur ?keys) (newKeysOf w ?keys)"
    and B2: "\<And>P. find P (map fst vm) = find P B" by blast
  have none: "find ?P (map fst vm) = None"
    unfolding B2 using B1 unfolding newKeysOf_def by (rule no_new_key_matches [OF s t l])
  have news: "find ?P (newSameKeysOf w ?keys) = find ?P ?keys"
    unfolding newSameKeysOf_def by (rule find_intersectionWith [OF s t l])
  show a: "find ?P (map fst (lastVirtualNodesMap w')) = find ?P ?keys"
    unfolding lv by (simp add: copySameKeys_keys none news)
  from n obtain x where "x \<in> set ?keys" "?c x k" by (auto simp: hasKey_iff)
  then obtain n0 where n0: "find ?P ?keys = Some n0" using find_exists [of x ?keys ?P] by blast
  from find_Some_pred [OF n0] have n0k: "n0 \<in> set ?keys" "?c n0 k" by simp_all
  from n0 news have "find ?P (newSameKeysOf w ?keys) = Some n0" by simp
  from find_Some_pred [OF this] have n0s: "n0 \<in> set (newSameKeysOf w ?keys)" by simp
  from per_refl [OF s t n0k(2)] n0k(1) have hn: "hasKey ?c n0 ?keys" by (auto simp: hasKey_iff)
  have "find (\<lambda>x. ?c n0 x) (oldSameKeysOf w ?keys) = find (\<lambda>x. ?c x n0) (oldSameKeysOf w ?keys)"
    by (simp only: per_flip [OF s, of n0])
  also have "\<dots> = find (\<lambda>x. ?c x n0) (lastKeyList w)"
    unfolding oldSameKeysOf_def by (rule find_intersectionWith [OF s t hn])
  also have "\<dots> = find ?P (lastKeyList w)" by (simp add: per_pred [OF s t n0k(2)])
  finally have old: "findOr (\<lambda>x. ?c n0 x) (oldSameKeysOf w ?keys) = findOr ?P (lastKeyList w)"
    by (simp add: findOr_def)
  have "fst (getVirtualNodeByKey k w') = getVirtualNode (lastVirtualNodesMap w') n0"
    by (simp add: getVirtualNodeByKey_def kc a n0 findOr_def)
  also have "\<dots> = getVirtualNode (lastVirtualNodesMap w4)
       (findOr (\<lambda>x. keyComparer w4 n0 x) (oldSameKeysOf w ?keys))"
    unfolding lv by (simp add: getVirtualNode_def copySameKeys_value n0s)
  finally show "fst (getVirtualNodeByKey k w')
           = getVirtualNode (lastVirtualNodesMap w) (findOr ?P (lastKeyList w))"
    by (simp add: f4 old)
qed

lemma pass_orders_handles:
  assumes s: "symp (keyComparer w)" and t: "transp (keyComparer w)"
    and pass: "normalModeWatcherCallback cur w = Inr w'"
  shows "handleMapOrdered w'"
proof -
  let ?c = "keyComparer w" and ?keys = "thisKeyListOf w cur"
  from pass obtain cm vm w4 where
    B: "\<exists>B. (B = [] \<or> B = filter (bindable w cur ?keys) (newKeysOf w ?keys))
       \<and> (\<forall>P. find P (map fst vm) = find P B) \<and> fst ` set vm = set B"
    and lv: "lastVirtualNodesMap w' = snd (copySameKeys w4 (oldSameKeysOf w ?keys)
        (newSameKeysOf w ?keys) (cm, vm))"
    and kl: "lastKeyList w' = ?keys"
    and kc: "keyComparer w' = keyComparer w"
    by (rule pass_store)
  from B obtain B where B1: "B = [] \<or> B = filter (bindable w cur ?keys) (newKeysOf w ?keys)"
    and B2: "\<And>P. find P (map fst vm) = find P B" and B3: "fst ` set vm = set B" by blast
  have "find (\<lambda>x. ?c x m) (map fst (lastVirtualNodesMap w')) = find (\<lambda>x. ?c x m) ?keys"
    if m: "m \<in> fst ` set (lastVirtualNodesMap w')" for m
  proof -
    let ?P = "\<lambda>x. ?c x m"
    from m have "m \<in> set B \<or> m \<in> set (newSameKeysOf w ?keys)"
      unfolding lv by (simp add: copySameKeys_keys B3)
    then show ?thesis
    proof
      assume "m \<in> set (newSameKeysOf w ?keys)"
      then have "m \<in> set (interLoop (lastKeyList w) ?c ?keys [])"
        by (simp add: newSameKeysOf_def intersectionWith_interLoop [OF s t])
      from interLoop_subset [OF this] obtain l where
        ml: "m \<in> set ?keys" "l \<in> set (lastKeyList w)" "?c m l"
        by (auto simp: includes_iff)
      from per_sym [OF s ml(3)] ml(2) have hl: "hasKey ?c m (lastKeyList w)"
        by (auto simp: hasKey_iff)
      from per_refl [OF s t ml(3)] ml(1) have hn: "hasKey ?c m ?keys"
        by (auto simp: hasKey_iff)
      from carried_handle(1) [OF s t pass hl hn] show ?thesis .
    next
      assume mB: "m \<in> set B"
      with B1 have Bf: "B = filter (bindable w cur ?keys) (newKeysOf w ?keys)" by auto
      with mB have mn: "m \<in> set (newKeysOf w ?keys)" and bm: "bindable w cur ?keys m" by simp_all
      from mn have mk: "m \<in> set ?keys" and nol: "\<forall>l\<in>set (lastKeyList w). \<not> ?c m l"
        by (simp_all add: newKeysOf_def differenceWith_def includes_iff)
      have cp: "find ?P (map fst (lastVirtualNodesMap w'))
          = (case find ?P B of Some x \<Rightarrow> Some x | None \<Rightarrow> find ?P (newSameKeysOf w ?keys))"
        unfolding lv by (simp add: copySameKeys_keys B2)
      show ?thesis
      proof (cases "?c m m")
        case True
        have nh: "\<not> hasKey ?c m (lastKeyList w)"
        proof
          assume "hasKey ?c m (lastKeyList w)"
          then obtain l where "l \<in> set (lastKeyList w)" "?c l m" by (auto simp: hasKey_iff)
          with per_sym [OF s] nol show False by blast
        qed
        have "find ?P B = find ?P (newKeysOf w ?keys)"
          unfolding Bf
        proof (rule find_filter_same, intro ballI impI)
          fix x assume "?c x m"
          from bindable_class [OF s t this] bm show "bindable w cur ?keys x" by simp
        qed
        also have "\<dots> = find ?P ?keys"
          unfolding newKeysOf_def by (rule find_differenceWith [OF s t nh])
        finally have fb: "find ?P B = find ?P ?keys" .
        from find_exists [of m ?keys ?P] mk True obtain y where "find ?P ?keys = Some y" by blast
        with cp fb show ?thesis by simp
      next
        case False
        have "\<not> ?c x m" for x
        proof
          assume "?c x m"
          from per_refl [OF s t per_sym [OF s this]] False show False by simp
        qed
        then have "find ?P xs = None" for xs by (simp add: find_None_iff)
        then show ?thesis by simp
      qed
    qed
  qed
  then show ?thesis
    by (simp add: handleMapOrdered_def list_all_iff kc kl)
qed

lemma ordered_lookup:
  assumes s: "symp (keyComparer w)" and t: "transp (keyComparer w)"
    and inv: "handleMapOrdered w"
    and e: "hasKey (keyComparer w) k (map fst (lastVirtualNodesMap w))"
  shows "find (\<lambda>x. keyComparer w x k) (map fst (lastVirtualNodesMap w))
           = find (\<lambda>x. keyComparer w x k) (lastKeyList w)"
    and "hasKey (keyComparer w) k (lastKeyList w)"
proof -
  from e obtain m where m: "m \<in> fst ` set (lastVirtualNodesMap w)" "keyComparer w m k"
    by (auto simp: hasKey_iff)
  with inv have "find (\<lambda>x. keyComparer w x m) (map fst (lastVirtualNodesMap w))
           = find (\<lambda>x. keyComparer w x m) (lastKeyList w)"
    by (auto simp: handleMapOrdered_def list_all_iff)
  then show a: "find (\<lambda>x. keyComparer w x k) (map fst (lastVirtualNodesMap w))
           = find (\<lambda>x. keyComparer w x k) (lastKeyList w)"
    unfolding per_pred [OF s t m(2)] .
  from m obtain b where "(m, b) \<in> set (lastVirtualNodesMap w)" by auto
  then have "m \<in> set (map fst (lastVirtualNodesMap w))" by force
  from find_exists [OF this, of "\<lambda>x. keyComparer w x k"] m(2) a
  obtain y where "find (\<lambda>x. keyComparer w x k) (lastKeyList w) = Some y" by auto
  from find_Some_pred [OF this] show "hasKey (keyComparer w) k (lastKeyList w)"
    by (auto simp: hasKey_iff)
qed

lemma pass_keeps_handle:
  assumes s: "symp (keyComparer w)" and t: "transp (keyComparer w)"
    and inv: "handleMapOrdered w"
    and e: "hasKey (keyComparer w) k (map fst (lastVirtualNodesMap w))"
    and n: "hasKey (keyComparer w) k (thisKeyListOf w cur)"
    and pass: "normalModeWatcherCallback cur w = Inr w'"
  shows "fst (getVirtualNodeByKey k w') = fst (getVirtualNodeByKey k w)"
    and "hasKey (keyComparer w) k (map fst (lastVirtualNodesMap w'))"
proof -
  note o = ordered_lookup [OF s t inv e]
  from carried_handle(2) [OF s t pass o(2) n] o(1)
  show "fst (getVirtualNodeByKey k w') = fst (getVirtualNodeByKey k w)"
    by (simp add: getVirtualNodeByKey_def findOr_def)
  from n obtain x where x: "x \<in> set (thisKeyListOf w cur)" "keyComparer w x k"
    by (auto simp: hasKey_iff)
  from find_exists [of x "thisKeyListOf w cur" "\<lambda>x. keyComparer w x k"] x
    carried_handle(1) [OF s t pass o(2) n]
  obtain y where "find (\<lambda>x. keyComparer w x k) (map fst (lastVirtualNodesMap w')) = Some y"
    by auto
  from find_Some_pred [OF this] show "hasKey (keyComparer w) k (map fst (lastVirtualNodesMap w'))"
    by (auto simp: hasKey_iff)
qed

lemma runPasses_keeps_handle:
  "symp (keyComparer w) \<Longrightarrow> transp (keyComparer w) \<Longrightarrow> handleMapOrdered w
   \<Longrightarrow> hasKey (keyComparer w) k (map fst (lastVirtualNodesMap w))
   \<Longrightarrow> \<forall>cur\<in>set gens. hasKey (keyComparer w) k (thisKeyListOf w cur)
   \<Longrightarrow> runPasses gens w = Inr w'
   \<Longrightarrow> fst (getVirtualNodeByKey k w') = fst (getVirtualNodeByKey k w)"
proof (induction gens arbitrary: w)
  case Nil
  then show ?case by simp
next
  case (Cons cur gens)
  from Cons.prems(6) obtain w1 where p: "normalModeWatcherCallback cur w = Inr w1"
    and r: "runPasses gens w1 = Inr w'" by (auto split: sum.splits)
  from p obtain cm vm w4 where kc: "keyComparer w1 = keyComparer w"
    and mk: "mapNodeToKey w1 = mapNodeToKey w" by (rule pass_store)
  have tk: "thisKeyListOf w1 = thisKeyListOf w" by (simp add: thisKeyListOf_def fun_eq_iff mk)
  from Cons.prems(5) have n: "hasKey (keyComparer w) k (thisKeyListOf w cur)" by simp
  note h = pass_keeps_handle [OF Cons.prems(1-4) n p]
  have "fst (getVirtualNodeByKey k w') = fst (getVirtualNodeByKey k w1)"
  proof (rule Cons.IH [OF _ _ _ _ _ r])
    show "symp (keyComparer w1)" "transp (keyComparer w1)" using Cons.prems(1,2) by (simp_all add: kc)
    show "handleMapOrdered w1" by (rule pass_orders_handles [OF Cons.prems(1,2) p])
    show "hasKey (keyComparer w1) k (map fst (lastVirtualNodesMap w1))" using h(2) by (simp add: kc)
    show "\<forall>cur\<in>set gens. hasKey (keyComparer w1) k (thisKeyListOf w1 cur)"
      using Cons.prems(5) by (simp add: kc tk)
  qed
  with h(1) show ?case by simp
qed

text \<open>
  C2.  Take a key comparer that is symmetric and transitive, any watcher, and a pass after
  which the handle map has an entry for the key \<open>k\<close>.  Over any further run of passes
  in each of which the current key list has a counterpart of \<open>k\<close> (whatever the Targets
  are, and whether or not they differ under the value comparer), \<open>getVirtualNodeByKey\<close>
  returns the same handle after the last pass as after the first: the handle is carried
  forward, never replaced.
\<close>

theorem handle_identity_stable:
  assumes "symp (keyComparer w0)" "transp (keyComparer w0)"
    and "normalModeWatcherCallback cur0 w0 = Inr w1"
    and "hasKey (keyComparer w0) k (map fst (lastVirtualNodesMap w1))"
    and "\<forall>cur\<in>set gens. hasKey (keyComparer w0) k (thisKeyListOf w0 cur)"
    and "runPasses gens w1 = Inr w'"
  shows "fst (getVirtualNodeByKey k w') = fst (getVirtualNodeByKey k w1)"
proof -
  from assms(3) obtain cm vm w4 where kc: "keyComparer w1 = keyComparer w0"
    and mk: "mapNodeToKey w1 = mapNodeToKey w0" by (rule pass_store)
  have tk: "thisKeyListOf w1 = thisKeyListOf w0" by (simp add: thisKeyListOf_def fun_eq_iff mk)
  show ?thesis
  proof (rule runPasses_keeps_handle [OF _ _ _ _ _ assms(6)])
    show "symp (keyComparer w1)" "transp (keyComparer w1)" using assms(1,2) by (simp_all add: kc)
    show "handleMapOrdered w1" by (rule pass_orders_handles [OF assms(1,2,3)])
    show "hasKey (keyComparer w1) k (map fst (lastVirtualNodesMap w1))"
      using assms(4) by (simp add: kc)
    show "\<forall>cur\<in>set gens. hasKey (keyComparer w1) k (thisKeyListOf w1 cur)"
      using assms(5) by (simp add: kc tk)
  qed
qed

lemmas example_keyed_defs = exampleKeyed_def exampleWatching_def exampleDocument_def
  assignKeys_def useForeach_def noNeedInSingleMode_def

lemma example_keyed_first_pass:
  "\<exists>w1. normalModeWatcherCallback [VNode (Doc 1)] exampleKeyed = Inr w1
     \<and> lastVirtualNodesMap w1 = [(VNum 0, Some 1)]"
  by (simp add: example_keyed_defs pass_defs proxy_defs dom_defs Let_def)

lemma example_keyed_three_passes:
  "\<exists>w'. runPasses [[VNode (Doc 1)], [VNode (Doc 2)], [VNode (Doc 3)]] exampleKeyed = Inr w'
     \<and> realCurrent (handles w' 1) = Some (Doc 3)"
  by (simp add: example_keyed_defs pass_defs proxy_defs dom_defs Let_def)

theorem handle_identity_stable_witness:
  "symp (keyComparer exampleKeyed) \<and> transp (keyComparer exampleKeyed)
   \<and> map_sum id (\<lambda>w. fst (getVirtualNodeByKey (VNum 0) w))
        (runPasses [[VNode (Doc 1)]] exampleKeyed) = Inr (Some 1)
   \<and> map_sum id (\<lambda>w. fst (getVirtualNodeByKey (VNum 0) w))
        (runPasses [[VNode (Doc 1)], [VNode (Doc 2)], [VNode (Doc 3)]] exampleKeyed) = Inr (Some 1)
   \<and> map_sum id (\<lambda>w. realCurrent (handles w 1))
        (runPasses [[VNode (Doc 1)], [VNode (Doc 2)], [VNode (Doc 3)]] exampleKeyed)
        = Inr (Some (Doc 3))"
proof -
  have kc: "keyComparer exampleKeyed = defaultEqualityComparer"
    and mk: "mapNodeToKey exampleKeyed = Some (\<lambda>node i arr. VNum (int i))"
    by (simp_all add: example_keyed_defs Watcher_def split: prod.splits)
  have s: "symp (keyComparer exampleKeyed)" and t: "transp (keyComparer exampleKeyed)"
    unfolding kc by (rule default_comparer_per)+
  from example_keyed_first_pass obtain w1 where
    p: "normalModeWatcherCallback [VNode (Doc 1)] exampleKeyed = Inr w1"
    and m: "lastVirtualNodesMap w1 = [(VNum 0, Some 1)]" by blast
  from example_keyed_three_passes obtain w' where
    r3: "runPasses [[VNode (Doc 1)], [VNode (Doc 2)], [VNode (Doc 3)]] exampleKeyed = Inr w'"
    and c3: "realCurrent (handles w' 1) = Some (Doc 3)" by blast
  from r3 p have r: "runPasses [[VNode (Doc 2)], [VNode (Doc 3)]] w1 = Inr w'" by simp
  have e: "hasKey (keyComparer exampleKeyed) (VNum 0) (map fst (lastVirtualNodesMap w1))"
    by (simp add: kc m hasKey_def defaultEqualityComparer_def)
  have g: "\<forall>cur\<in>set [[VNode (Doc 2)], [VNode (Doc 3)]].
      hasKey (keyComparer exampleKeyed) (VNum 0) (thisKeyListOf exampleKeyed cur)"
    by (simp add: kc mk hasKey_def defaultEqualityComparer_def thisKeyListOf_def)
  from p pass_store [OF p] have k1: "keyComparer w1 = defaultEqualityComparer" by (metis kc)
  have f1: "fst (getVirtualNodeByKey (VNum 0) w1) = Some 1"
    by (simp add: getVirtualNodeByKey_def m k1 findOr_def getVirtualNode_def
        defaultEqualityComparer_def)
  from handle_identity_stable [OF s t p e g r] f1
  have "fst (getVirtualNodeByKey (VNum 0) w') = Some 1" by simp
  with s t p r3 c3 f1 show ?thesis by simp
qed

section \<open>Scheduling a check\<close>

lemma sched_watcherChecker:
  assumes "watcherChecker q w = Inr w'"
  shows "isWatcherCheckerRunning w' = isWatcherCheckerRunning w"
    "needCheckerRunAgainAfterCurrentSchedule w' = needCheckerRunAgainAfterCurrentSchedule w"
    "checkerRuns w' = Suc (checkerRuns w)"
proof -
  have "sched w' = sched (w\<lparr> checkerRuns := Suc (checkerRuns w) \<rparr>)"
    using assms
    by (auto simp: watcherChecker_def Let_def split: if_splits jsval.splits
        dest: sched_single sched_normal)
  then show "isWatcherCheckerRunning w' = isWatcherCheckerRunning w"
    "needCheckerRunAgainAfterCurrentSchedule w' = needCheckerRunAgainAfterCurrentSchedule w"
    "checkerRuns w' = Suc (checkerRuns w)"
    by (simp_all add: sched_def)
qed

lemma schedule_while_running:
  "isWatcherCheckerRunning w \<Longrightarrow>
   scheduleWatcherCheck checker w = Inr (w\<lparr> needCheckerRunAgainAfterCurrentSchedule := True \<rparr>)"
  by (simp add: scheduleWatcherCheck_def)

lemma requests_while_running:
  "isWatcherCheckerRunning w \<Longrightarrow>
   requests n w = Inr (if n = 0 then w else w\<lparr> needCheckerRunAgainAfterCurrentSchedule := True \<rparr>)"
proof (induction n arbitrary: w)
  case 0 then show ?case by simp
next
  case (Suc n)
  then show ?case by (simp add: schedule_while_running)
qed

lemma checkerIn_running:
  assumes "isWatcherCheckerRunning w" "checkerIn env w = Inr w'"
  shows "isWatcherCheckerRunning w'" "checkerRuns w' = Suc (checkerRuns w)"
    "needCheckerRunAgainAfterCurrentSchedule w'
       = (needCheckerRunAgainAfterCurrentSchedule w \<or> 0 < snd (env (checkerRuns w)))"
proof -
  from assms(2) obtain w1 where c: "watcherChecker (fst (env (checkerRuns w))) w = Inr w1"
    and r: "requests (snd (env (checkerRuns w))) w1 = Inr w'"
    by (auto simp: checkerIn_def split: sum.splits)
  note f = sched_watcherChecker [OF c]
  from f(1) assms(1) have run: "isWatcherCheckerRunning w1" by simp
  from r requests_while_running [OF run, of "snd (env (checkerRuns w))"]
  have w': "w' = (if snd (env (checkerRuns w)) = 0 then w1
               else w1\<lparr> needCheckerRunAgainAfterCurrentSchedule := True \<rparr>)" by simp
  show "isWatcherCheckerRunning w'" using w' run by simp
  show "checkerRuns w' = Suc (checkerRuns w)" using w' f(3) by simp
  show "needCheckerRunAgainAfterCurrentSchedule w'
       = (needCheckerRunAgainAfterCurrentSchedule w \<or> 0 < snd (env (checkerRuns w)))"
    using w' f(2) by auto
qed

lemma againLoop_once:
  "againLoop checker w =
     (if needCheckerRunAgainAfterCurrentSchedule w then
        (case checker w of Inl e \<Rightarrow> Inl e
         | Inr w1 \<Rightarrow> Inr (w1\<lparr> needCheckerRunAgainAfterCurrentSchedule := False \<rparr>))
      else Inr w)"
  by (subst againLoop.simps) (simp split: sum.splits)

lemma request_while_idle:
  assumes "\<not> isWatcherCheckerRunning w" "\<not> needCheckerRunAgainAfterCurrentSchedule w"
    and "scheduleWatcherCheck (watcherChecker q) w = Inr w'"
  shows "\<not> isWatcherCheckerRunning w'" "\<not> needCheckerRunAgainAfterCurrentSchedule w'"
    "checkerRuns w' = Suc (checkerRuns w)"
proof -
  from assms(1,3) obtain w1 w2 where
    c: "watcherChecker q (w\<lparr> isWatcherCheckerRunning := True \<rparr>) = Inr w1"
    and l: "againLoop (watcherChecker q) w1 = Inr w2"
    and w': "w' = w2\<lparr> isWatcherCheckerRunning := False \<rparr>"
    by (auto simp: scheduleWatcherCheck_def split: sum.splits)
  note f = sched_watcherChecker [OF c]
  from f(2) assms(2) have "\<not> needCheckerRunAgainAfterCurrentSchedule w1" by simp
  with l have "w2 = w1" by (simp add: againLoop_once)
  with w' f assms(2) show "\<not> isWatcherCheckerRunning w'"
    "\<not> needCheckerRunAgainAfterCurrentSchedule w'" "checkerRuns w' = Suc (checkerRuns w)"
    by simp_all
qed

lemma requests_while_idle:
  "\<not> isWatcherCheckerRunning w \<Longrightarrow> \<not> needCheckerRunAgainAfterCurrentSchedule w
   \<Longrightarrow> requests n w = Inr w'
   \<Longrightarrow> \<not> isWatcherCheckerRunning w' \<and> \<not> needCheckerRunAgainAfterCurrentSchedule w'
       \<and> checkerRuns w' = checkerRuns w + n"
proof (induction n arbitrary: w)
  case 0 then show ?case by simp
next
  case (Suc n)
  from Suc.prems(3) obtain w1 where
    s: "scheduleWatcherCheck (watcherChecker (VArr [])) w = Inr w1" and r: "requests n w1 = Inr w'"
    by (auto split: sum.splits)
  note f = request_while_idle [OF Suc.prems(1,2) s]
  from Suc.IH [OF f(1,2) r] f(3) show ?case by simp
qed

lemma startWatchIn_runs:
  assumes "\<not> isWatcherCheckerRunning w" "\<not> needCheckerRunAgainAfterCurrentSchedule w"
    and "startWatchIn env w = Inr w'"
  shows "checkerRuns w' = checkerRuns w + 1 + snd (env (checkerRuns w))"
proof -
  let ?w0 = "w\<lparr> isWatching := True,
           warning_forget_watch := (warning_forget_watch w)\<lparr> ignored := True \<rparr> \<rparr>"
  from assms(3) obtain w1 where c: "watcherChecker (fst (env (checkerRuns w))) ?w0 = Inr w1"
    and r: "requests (snd (env (checkerRuns w))) w1 = Inr w'"
    by (auto simp: startWatchIn_def checkerIn_def split: sum.splits)
  note f = sched_watcherChecker [OF c]
  from f assms(1,2) have "\<not> isWatcherCheckerRunning w1" "\<not> needCheckerRunAgainAfterCurrentSchedule w1"
    by simp_all
  from requests_while_idle [OF this r] f(3) show ?thesis by simp
qed

text \<open>
  C7 (as amended).  While \<open>isWatcherCheckerRunning\<close> is set, that is while
  \<open>scheduleWatcherCheck\<close> runs its passes, a further call of \<open>scheduleWatcherCheck\<close>,
  and any number of them, runs no pass: it sets the run-again flag and returns.  A call
  that arrives while no check is running and none is pending runs one pass, and exactly
  one follow-up pass right after it when at least one call arrived during that first
  pass, however many arrived; calls that arrive during the follow-up pass are discarded,
  so the call runs two passes at most and ends with nothing running and nothing pending.
  The pass that \<open>startWatch\<close> runs is not covered: it does not set the flag, and every
  call of \<open>scheduleWatcherCheck\<close> that arrives during it runs a pass of its own at once.
\<close>

theorem schedule_coalesces_first_pass_only:
  assumes "\<not> isWatcherCheckerRunning w" "\<not> needCheckerRunAgainAfterCurrentSchedule w"
    and "scheduleWatcherCheck (checkerIn env) w = Inr w'"
  shows "checkerRuns w' = checkerRuns w + (if 0 < snd (env (checkerRuns w)) then 2 else 1)
       \<and> \<not> isWatcherCheckerRunning w' \<and> \<not> needCheckerRunAgainAfterCurrentSchedule w'
       \<and> (\<forall>checker v. isWatcherCheckerRunning v \<longrightarrow>
            scheduleWatcherCheck checker v
              = Inr (v\<lparr> needCheckerRunAgainAfterCurrentSchedule := True \<rparr>))
       \<and> (\<forall>n v. isWatcherCheckerRunning v \<longrightarrow>
            map_sum id checkerRuns (requests n v) = Inr (checkerRuns v))
       \<and> (\<forall>v. startWatchIn env w = Inr v \<longrightarrow>
            checkerRuns v = checkerRuns w + 1 + snd (env (checkerRuns w)))"
proof -
  let ?w0 = "w\<lparr> isWatcherCheckerRunning := True \<rparr>"
  from assms obtain w1 w2 where
    c1: "checkerIn env ?w0 = Inr w1" and l: "againLoop (checkerIn env) w1 = Inr w2"
    and w': "w' = w2\<lparr> isWatcherCheckerRunning := False \<rparr>"
    by (auto simp: scheduleWatcherCheck_def split: sum.splits)
  have r0: "isWatcherCheckerRunning ?w0" by simp
  note f1 = checkerIn_running [OF r0 c1]
  have rest: "(\<forall>n v. isWatcherCheckerRunning v \<longrightarrow>
            map_sum id checkerRuns (requests n v) = Inr (checkerRuns v))
       \<and> (\<forall>v. startWatchIn env w = Inr v \<longrightarrow>
            checkerRuns v = checkerRuns w + 1 + snd (env (checkerRuns w)))"
    using startWatchIn_runs [OF assms(1,2)] by (simp add: requests_while_running)
  show ?thesis
  proof (cases "0 < snd (env (checkerRuns w))")
    case False
    with f1 assms(2) have "\<not> needCheckerRunAgainAfterCurrentSchedule w1" by simp
    with l have "w2 = w1" by (simp add: againLoop_once)
    with w' f1 False assms(2) rest show ?thesis by (simp add: schedule_while_running)
  next
    case True
    with f1 have n1: "needCheckerRunAgainAfterCurrentSchedule w1" by simp
    with l obtain w3 where c2: "checkerIn env w1 = Inr w3"
      and w2: "w2 = w3\<lparr> needCheckerRunAgainAfterCurrentSchedule := False \<rparr>"
      by (auto simp: againLoop_once split: sum.splits)
    note f2 = checkerIn_running [OF f1(1) c2]
    from w' w2 f2 f1 True rest show ?thesis by (simp add: schedule_while_running)
  qed
qed

lemma example_schedule_returns:
  "\<exists>w'. scheduleWatcherCheck (checkerIn exampleEnv) exampleWatching = Inr w'"
  by (simp add: exampleWatching_def exampleDocument_def exampleEnv_def pass_defs proxy_defs
      dom_defs Let_def scheduleWatcherCheck_def checkerIn_def againLoop_once)

lemma example_start_runs_nested_pass:
  "map_sum id checkerRuns (startWatchIn exampleEnv exampleWatching) = Inr 2"
  by (simp add: exampleWatching_def exampleDocument_def exampleEnv_def pass_defs proxy_defs
      dom_defs Let_def scheduleWatcherCheck_def checkerIn_def againLoop_once startWatchIn_def)

theorem schedule_coalesces_first_pass_only_witness:
  "\<not> isWatcherCheckerRunning exampleWatching
   \<and> \<not> needCheckerRunAgainAfterCurrentSchedule exampleWatching
   \<and> map_sum id checkerRuns (scheduleWatcherCheck (checkerIn exampleEnv) exampleWatching)
       = Inr 2"
proof -
  have a: "\<not> isWatcherCheckerRunning exampleWatching"
    and b: "\<not> needCheckerRunAgainAfterCurrentSchedule exampleWatching"
    and c: "checkerRuns exampleWatching = 0"
    by (simp_all add: exampleWatching_def Watcher_def split: prod.splits)
  from example_schedule_returns obtain w' where
    r: "scheduleWatcherCheck (checkerIn exampleEnv) exampleWatching = Inr w'" ..
  from schedule_coalesces_first_pass_only [OF a b r] c have "checkerRuns w' = 2"
    by (simp add: exampleEnv_def)
  with a b r show ?thesis by simp
qed

text \<open>
  C7 as stated fails: in \<open>exampleEnv\<close> a check is asked for during the second pass (the
  follow-up), yet the call runs two passes only and ends with no check pending.
\<close>

theorem follow_up_request_dropped:
  "snd (exampleEnv 1) = 1
   \<and> map_sum id checkerRuns (scheduleWatcherCheck (checkerIn exampleEnv) exampleWatching)
       = Inr 2
   \<and> map_sum id needCheckerRunAgainAfterCurrentSchedule
         (scheduleWatcherCheck (checkerIn exampleEnv) exampleWatching) = Inr False"
  by (simp add: exampleWatching_def exampleDocument_def exampleEnv_def pass_defs proxy_defs
      dom_defs Let_def scheduleWatcherCheck_def checkerIn_def againLoop_once)

section \<open>The single-mode suggestion\<close>

lemma warn_never_counts:
  "once obj = OnceNum 15 \<Longrightarrow> warned obj = 0 \<Longrightarrow> warn obj = (False, obj)"
  by (simp add: warn_def)

lemma quiet_promptSingleMode: "quiet w \<Longrightarrow> quiet (promptSingleMode cur w)"
  by (simp add: quiet_def promptSingleMode_def Let_def warn_never_counts)

lemma quiet_stable: "stable w' = stable w \<Longrightarrow> quiet w' = quiet w"
  using stable_fields(18,22) [of w' w] by (simp add: quiet_def)

lemma quiet_storeGeneration [simp]: "quiet (storeGeneration cur keys maps w) = quiet w"
  by (simp add: quiet_def storeGeneration_def)

lemma quiet_normal:
  assumes "normalModeWatcherCallback cur w = Inr w'" "quiet w"
  shows "quiet w'"
proof -
  from assms(1) obtain w3 maps w4 w7 where
    k: "keyIsNew cur (thisKeyListOf w cur)
       (scheduleRemovals (goneKeysOf (warnRepeatedKeys (thisKeyListOf w cur) w) (thisKeyListOf w cur))
          (warnRepeatedKeys (thisKeyListOf w cur) w)) = Inr (w3, maps)"
    and c: "changeNodes (changedNodesOf w3 cur (thisKeyListOf w cur)) w3 = Inr w4"
    and u: "updateFirst cur
       (emitEvents w4 cur (thisKeyListOf w cur) (changedNodesOf w3 cur (thisKeyListOf w cur))
          (storeGeneration cur (thisKeyListOf w cur)
             (copySameKeys w4 (oldSameKeysOf w4 (thisKeyListOf w cur))
                (newSameKeysOf w4 (thisKeyListOf w cur)) maps) w4)) = Inr w7"
    and w': "w' = promptSingleMode cur w7"
    by (rule normal_pass_steps)
  have "stable w3 = stable w" using stable_keyIsNew [OF k] by simp
  then have "quiet w3" using assms(2) quiet_stable [of w3 w] by simp
  then have "quiet w4" using quiet_stable [OF stable_changeNodes [OF c]] by simp
  moreover have "stable w7 = stable (storeGeneration cur (thisKeyListOf w cur)
             (copySameKeys w4 (oldSameKeysOf w4 (thisKeyListOf w cur))
                (newSameKeysOf w4 (thisKeyListOf w cur)) maps) w4)"
    using stable_updateFirst [OF u] by simp
  ultimately have "quiet w7" using quiet_stable [of w7] by simp
  then show ?thesis using w' by (simp add: quiet_promptSingleMode)
qed

lemma quiet_runPasses: "runPasses gens w = Inr w' \<Longrightarrow> quiet w \<Longrightarrow> quiet w'"
proof (induction gens arbitrary: w)
  case Nil then show ?case by simp
next
  case (Cons cur gens)
  then show ?case by (auto split: sum.splits dest: quiet_normal)
qed

lemma quiet_Watcher: "quiet (Watcher d)"
  by (simp add: quiet_def Watcher_def warning_def split: prod.splits)

text \<open>
  C8.  The claim expects a pass with exactly one Target to raise the single-mode
  suggestion.  With \<open>once: 15\<close> the counter of \<open>warn\<close> never leaves zero, so no run of
  passes of a new watcher ever prints it, whatever the generations are.
\<close>

theorem single_mode_suggestion_never_fires: "(case runPasses gens (Watcher d) of Inl e \<Rightarrow> True
      | Inr w \<Rightarrow> ConsoleWarn MsgSingleMode \<notin> set (effects w))"
proof (cases "runPasses gens (Watcher d)")
  case (Inl e) then show ?thesis by simp
next
  case (Inr w)
  from quiet_runPasses [OF Inr quiet_Watcher]
  have "filter (\<lambda>e. e = ConsoleWarn MsgSingleMode) (effects w) = []" by (simp add: quiet_def)
  then have "ConsoleWarn MsgSingleMode \<notin> set (effects w)" by (auto simp: filter_empty_conv)
  with Inr show ?thesis by simp
qed

text \<open>
  Sixteen passes in a row over the same single node, on a new watcher: every pass
  returns, and nothing at all is printed.
\<close>

lemma sixteen_single_target_passes:
  "\<exists>w. runPasses (replicate 16 [VNode (Doc 1)]) (Watcher exampleDocument) = Inr w
     \<and> effects w = []"
  by (simp add: exampleDocument_def pass_defs proxy_defs dom_defs Let_def numeral_eq_Suc)

text \<open>A pass that sees more than one Target silences the suggestion, and it stays silenced.\<close>

lemma silenced_promptSingleMode:
  "1 < length cur \<or> ignored (warning_single_mode w)
   \<Longrightarrow> ignored (warning_single_mode (promptSingleMode cur w))"
  by (auto simp: promptSingleMode_def Let_def warn_def split: prod.splits)

section \<open>Awaiting the watcher\<close>

text \<open>
  C4.  The claim expects the await to resolve with the results mapped through the
  transform.  With the transform \<open>addOne\<close> and the query result \<open>[1, 2, 3]\<close> the mapped
  results are \<open>[2, 3, 4]\<close>, but the returned promise is fulfilled with the transform
  applied once more, to that array as a whole: \<open>NaN\<close>.  No pass runs and the watcher is
  unchanged.
\<close>

theorem then_applies_transform_twice: "then_await (Some addOne) None None starter (VArr [VNum 1, VNum 2, VNum 3]) w
   = (Fulfilled VNaN, w)
   \<and> map addOne [VNum 1, VNum 2, VNum 3] = [VNum 2, VNum 3, VNum 4]"
  by (simp add: then_await_def throughOnfulfilled_def addOne_def)

lemma then_invalid_threshold:
  "n < 1 \<Longrightarrow> then_await f None (Some n) starter result w
     = (Rejected (TypeError ''Invalid minimalResultsRequired''), w)"
  by (simp add: then_await_def throughOnrejected_def)

lemma then_enough_results:
  "1 \<le> n \<Longrightarrow> n \<le> int (length xs) \<Longrightarrow> \<not> singleMode w \<Longrightarrow>
   then_await f g (Some n) starter (VArr xs) w
     = (Fulfilled (throughOnfulfilled f
          (VArr (map (case f of Some h \<Rightarrow> h | None \<Rightarrow> (\<lambda>x. x)) xs))), w)"
  by (simp add: then_await_def Let_def)

text \<open>
  C5 (as amended).  Awaiting a single-mode watcher with a threshold of at least 1 resolves
  at once, whether or not a value is present: the starter is not called, no pass runs,
  nothing starts watching, and the console is warned when the threshold is above 1.  The
  promise is fulfilled with what the one query evaluation yields (\<open>undefined\<close> when
  there is no value) passed through \<open>onfulfilled\<close>, whatever the threshold; only when
  that value is itself an array with at least as many elements as the threshold is each
  element passed through the transform first, as with single mode off.
\<close>

theorem single_mode_await_resolves_at_once:
  assumes "singleMode w"
    and "1 \<le> (case options of Some n \<Rightarrow> n | None \<Rightarrow> 1)"
  shows "then_await onfulfilled onrejected options starter result w
     = (Fulfilled (throughOnfulfilled onfulfilled
          (case result of
             VArr xs \<Rightarrow>
               if (case options of Some n \<Rightarrow> n | None \<Rightarrow> 1) \<le> int (length xs)
               then VArr (map (case onfulfilled of Some f \<Rightarrow> f | None \<Rightarrow> (\<lambda>x. x)) xs)
               else result
           | v \<Rightarrow> result)),
        if 1 < (case options of Some n \<Rightarrow> n | None \<Rightarrow> 1)
        then emit (ConsoleWarn MsgIgnoreMinimalResults) w else w)"
  using assms
  by (cases result) (simp_all add: then_await_def Let_def emit_def)

theorem single_mode_await_resolves_at_once_witness:
  "singleMode exampleSingle \<and> (1::int) \<le> 3
   \<and> then_await None None (Some 3) (startWatch (VStr ''a'')) (VStr ''a'') exampleSingle
       = (Fulfilled (VStr ''a''), emit (ConsoleWarn MsgIgnoreMinimalResults) exampleSingle)
   \<and> then_await None None None (startWatch (VArr [VNum 1])) (VArr [VNum 1]) exampleSingle
       = (Fulfilled (VArr [VNum 1]), exampleSingle)"
proof -
  have s: "singleMode exampleSingle"
    by (simp add: exampleSingle_def enableSingleMode_def)
  from single_mode_await_resolves_at_once [OF s, of "Some 3" None None
      "startWatch (VStr ''a'')" "VStr ''a''"]
    single_mode_await_resolves_at_once [OF s, of None None None
      "startWatch (VArr [VNum 1])" "VArr [VNum 1]"] s
  show ?thesis by (simp add: throughOnfulfilled_def)
qed

text \<open>
  C5 as stated fails: the query yields \<open>undefined\<close>, no value is present, and the await
  of the single-mode watcher is fulfilled all the same, with \<open>undefined\<close>.
\<close>

theorem single_mode_await_resolves_without_value:
  "then_await None None None (startWatch VUndefined) VUndefined exampleSingle
     = (Fulfilled VUndefined, exampleSingle)"
  by (simp add: then_await_def throughOnfulfilled_def exampleSingle_def enableSingleMode_def)

section \<open>Falsy values in single mode\<close>

lemma hasLast_rebind:
  "rebind h n w = Inr w' \<Longrightarrow> singleModeHasLastValue w' = singleModeHasLastValue w"
  by (rule stable_fields(19) [OF stable_rebind])

lemma hasLast_bindFirst:
  "bindFirst v w = Inr w' \<Longrightarrow> singleModeHasLastValue w' = singleModeHasLastValue w"
  by (auto simp: bindFirst_def split: sum.splits if_splits jsval.splits dest!: hasLast_rebind)

lemma bindFirst_falsy: "\<not> truthy v \<Longrightarrow> \<not> isNil v \<Longrightarrow> bindFirst v w = Inr w"
  by (cases v) (simp_all add: bindFirst_def isNil_def)

lemma hasLast_valueIsNew: "valueIsNew v w = Inr w' \<Longrightarrow> singleModeHasLastValue w'"
  by (auto simp: valueIsNew_def split: sum.splits)

text \<open>
  C10.  In single mode, while no last value is tracked, a pass over a value that is falsy
  but not nil changes nothing at all: the \<open>useForeach\<close> function is not called, no event
  is emitted, no last value is stored.  And whatever the value, a pass that starts with no
  last value ends with one exactly when the value is truthy.
\<close>

theorem falsy_value_counts_as_absent:
  assumes "\<not> singleModeHasLastValue w"
  shows "(\<not> truthy v \<and> \<not> isNil v \<longrightarrow> singleModeWatcherCallback v w = Inr w)
       \<and> (\<forall>w'. singleModeWatcherCallback v w = Inr w' \<longrightarrow> singleModeHasLastValue w' = truthy v)"
proof (intro conjI impI allI)
  assume "\<not> truthy v \<and> \<not> isNil v"
  with assms show "singleModeWatcherCallback v w = Inr w"
    by (simp add: singleModeWatcherCallback_def bindFirst_falsy)
next
  fix w' assume r: "singleModeWatcherCallback v w = Inr w'"
  then obtain w1 where b: "bindFirst v w = Inr w1"
    by (auto simp: singleModeWatcherCallback_def split: sum.splits)
  from hasLast_bindFirst [OF b] assms have n: "\<not> singleModeHasLastValue w1" by simp
  show "singleModeHasLastValue w' = truthy v"
  proof (cases "truthy v")
    case True
    with r b n have "valueIsNew v w1 = Inr w'" by (simp add: singleModeWatcherCallback_def)
    with True show ?thesis by (simp add: hasLast_valueIsNew)
  next
    case False
    with r b n have "w' = w1" by (simp add: singleModeWatcherCallback_def)
    with n False show ?thesis by simp
  qed
qed

theorem falsy_value_counts_as_absent_witness:
  "\<not> singleModeHasLastValue exampleSingle \<and> \<not> truthy (VNum 0) \<and> \<not> isNil (VNum 0)
   \<and> singleModeWatcherCallback (VNum 0) exampleSingle = Inr exampleSingle"
proof -
  have h: "\<not> singleModeHasLastValue exampleSingle"
    by (simp add: exampleSingle_def enableSingleMode_def Watcher_def split: prod.splits)
  have t: "\<not> truthy (VNum 0) \<and> \<not> isNil (VNum 0)"
    by (simp add: isNil_def)
  from falsy_value_counts_as_absent [OF h, of "VNum 0"] t
  have "singleModeWatcherCallback (VNum 0) exampleSingle = Inr exampleSingle" by blast
  with h t show ?thesis by simp
qed

section \<open>Stopping and starting\<close>

lemma forEachCalls_append [simp]: "forEachCalls (xs @ ys) = forEachCalls xs @ forEachCalls ys"
  by (induction xs rule: forEachCalls.induct) simp_all

lemma addedKeys_append [simp]: "addedKeys (xs @ ys) = addedKeys xs @ addedKeys ys"
  by (induction xs rule: addedKeys.induct) simp_all

lemma diffed_fields:
  assumes "diffed w' = diffed w"
  shows "forEachCalls (effects w') = forEachCalls (effects w)"
    "addedKeys (effects w') = addedKeys (effects w)" "idle w' = idle w"
  using assms by (simp_all add: diffed_def)

lemma diffed_emit:
  "diffed (emit e w) = (forEachCalls (effects w) @ forEachCalls [e],
                        addedKeys (effects w) @ addedKeys [e], idle w)"
  by (simp add: diffed_def emit_def)

lemma diffed_upd [simp]:
  "diffed (w\<lparr> page := d \<rparr>) = diffed w" "diffed (w\<lparr> handles := hs \<rparr>) = diffed w"
  "diffed (w\<lparr> nextHandle := n \<rparr>) = diffed w"
  "diffed (w\<lparr> isWatching := b \<rparr>) = diffed w" "diffed (w\<lparr> waiters := ws \<rparr>) = diffed w"
  "diffed (w\<lparr> warning_repeated_keys := obj \<rparr>) = diffed w"
  "diffed (w\<lparr> warning_single_mode := obj \<rparr>) = diffed w"
  "diffed (w\<lparr> warning_forget_watch := obj \<rparr>) = diffed w"
  "diffed (w\<lparr> checkerRuns := r \<rparr>) = diffed w"
  "diffed (w\<lparr> singleModeLastValue := a \<rparr>) = diffed w"
  "diffed (w\<lparr> singleModeHasLastValue := b \<rparr>) = diffed w"
  by (simp_all add: diffed_def)

lemma diffed_rebind: "rebind h n w = Inr w' \<Longrightarrow> diffed w' = diffed w"
  by (auto simp: rebind_def diffed_def split: sum.splits prod.splits)

lemma diffed_newHandle: "newHandle w = (h, w') \<Longrightarrow> diffed w' = diffed w"
  by (auto simp: newHandle_def diffed_def split: prod.splits)

lemma diffed_addNode:
  assumes "addNode f cur keys k (w, m) = Inr (w', m')"
  shows "\<exists>a. calledKey a = k
     \<and> diffed w' = (forEachCalls (effects w) @ [a], addedKeys (effects w), idle w)"
  using assms
proof (cases "findFromNew w cur keys k")
  case (VNode n)
  with assms obtain h w1 w2 cm vm where
    nh: "newHandle w = (h, w1)" and rb: "rebind h (Some n) w1 = Inr w2"
    and w': "diffed w' = diffed (emit (CallForEach (ForNode h k (VNode n))) w2)"
    by (cases m) (auto simp: addNode_def Let_def split: prod.splits sum.splits option.splits)
  from diffed_newHandle [OF nh] diffed_rebind [OF rb] have "diffed w2 = diffed w" by simp
  then have "diffed (emit (CallForEach (ForNode h k (VNode n))) w2)
     = (forEachCalls (effects w) @ [ForNode h k (VNode n)], addedKeys (effects w), idle w)"
    by (simp add: diffed_def emit_def)
  with w' have "calledKey (ForNode h k (VNode n)) = k
     \<and> diffed w' = (forEachCalls (effects w) @ [ForNode h k (VNode n)], addedKeys (effects w), idle w)"
    by simp
  then show ?thesis by blast
next
  case other: VUndefined
  with assms have "diffed w' = diffed (emit (CallForEach (ForValue VUndefined k)) w)"
    by (cases m) (auto simp: addNode_def Let_def applyWarnMutation_def split: option.splits)
  then have "calledKey (ForValue VUndefined k) = k
     \<and> diffed w' = (forEachCalls (effects w) @ [ForValue VUndefined k], addedKeys (effects w), idle w)"
    by (simp add: diffed_def emit_def)
  then show ?thesis by blast
qed (insert assms, (cases m, auto simp: addNode_def Let_def applyWarnMutation_def diffed_def emit_def
      split: option.splits)[1])+

lemma diffed_addNodes:
  "addNodes f cur keys ks (w, m) = Inr (w', m')
   \<Longrightarrow> \<exists>as. map calledKey as = ks
     \<and> diffed w' = (forEachCalls (effects w) @ as, addedKeys (effects w), idle w)"
proof (induction ks arbitrary: w m)
  case Nil
  then show ?case by (simp add: diffed_def)
next
  case (Cons k ks)
  from Cons.prems obtain w1 m1 where
    a: "addNode f cur keys k (w, m) = Inr (w1, m1)"
    and r: "addNodes f cur keys ks (w1, m1) = Inr (w', m')"
    by (auto split: sum.splits)
  from diffed_addNode [OF a] obtain a1 where
    a1: "calledKey a1 = k"
      "diffed w1 = (forEachCalls (effects w) @ [a1], addedKeys (effects w), idle w)" by blast
  from Cons.IH [OF r] obtain as where
    as: "map calledKey as = ks"
      "diffed w' = (forEachCalls (effects w1) @ as, addedKeys (effects w1), idle w1)" by blast
  from a1(2) have "forEachCalls (effects w1) = forEachCalls (effects w) @ [a1]"
    "addedKeys (effects w1) = addedKeys (effects w)" "idle w1 = idle w"
    by (simp_all add: diffed_def)
  with as(2) have "diffed w' = (forEachCalls (effects w) @ (a1 # as), addedKeys (effects w), idle w)"
    by simp
  moreover from a1(1) as(1) have "map calledKey (a1 # as) = k # ks" by simp
  ultimately show ?case by (intro exI [of _ "a1 # as"]) simp
qed

lemma diffed_keyIsNew:
  assumes "keyIsNew cur keys w = Inr (w', m')"
  shows "\<exists>as. map calledKey as = (if useForeachFn w = None then [] else newKeysOf w keys)
     \<and> diffed w' = (forEachCalls (effects w) @ as, addedKeys (effects w), idle w)"
proof (cases "useForeachFn w")
  case None
  with assms show ?thesis by (simp add: keyIsNew_def diffed_def)
next
  case (Some f)
  with assms have "addNodes f cur keys (newKeysOf w keys) (w, [], []) = Inr (w', m')"
    by (simp add: keyIsNew_def)
  from diffed_addNodes [OF this] Some show ?thesis by simp
qed

lemma diffed_applyTargetChange [simp]: "diffed (applyTargetChange c a b w) = diffed w"
  by (simp add: applyTargetChange_def diffed_emit split: option.splits) (simp add: diffed_def)

lemma diffed_changeNode: "changeNode entry w = Inr w' \<Longrightarrow> diffed w' = diffed w"
proof -
  obtain oldNode newNode oldKey newKey where e: "entry = (oldNode, newNode, oldKey, newKey)"
    by (cases entry) auto
  show "changeNode entry w = Inr w' \<Longrightarrow> diffed w' = diffed w"
  proof (cases newNode)
    case (VNode n)
    assume "changeNode entry w = Inr w'"
    with e VNode obtain h w1 where "rebind h (Some n) w = Inr w1"
      "w' = applyTargetChange (getCallbacks (lastCallbackMap w) oldKey) newNode oldNode w1"
      by (auto simp: changeNode_def Let_def split: option.splits sum.splits)
    with diffed_rebind [of h "Some n" w w1] show ?thesis by simp
  qed (simp_all add: e changeNode_def Let_def, auto)
qed

lemma diffed_changeNodes: "changeNodes entries w = Inr w' \<Longrightarrow> diffed w' = diffed w"
proof (induction entries arbitrary: w)
  case Nil then show ?case by simp
next
  case (Cons e es)
  then show ?case by (auto split: sum.splits dest!: diffed_changeNode)
qed

lemma removalOf_idle [simp]: "removalOf (w\<lparr> idle := q \<rparr>) = removalOf w"
  by (simp add: removalOf_def fun_eq_iff findFromLast_def)

lemma scheduleRemovals_idle:
  "scheduleRemovals ks w = w\<lparr> idle := idle w @ map (removalOf w) ks \<rparr>"
proof (induction ks arbitrary: w)
  case Nil then show ?case by simp
next
  case (Cons k ks)
  show ?case by (simp add: Cons.IH) (simp add: removalOf_def)
qed

lemma diffed_warnRepeatedKeys [simp]: "diffed (warnRepeatedKeys ks w) = diffed w"
  by (auto simp: warnRepeatedKeys_def diffed_emit split: prod.splits) (simp add: diffed_def)

lemma diffed_resolve [simp]: "diffed (resolve wt v w) = diffed w"
  by (simp add: resolve_def diffed_emit) (simp add: diffed_def)

lemma diffed_stopWatch [simp]: "diffed (stopWatch w) = diffed w"
  by (simp add: stopWatch_def)

lemma diffed_runWaiter [simp]: "diffed (runWaiter nodes wt w) = diffed w"
  by (simp add: runWaiter_def Let_def)

lemma diffed_runWaiters [simp]: "diffed (runWaiters nodes wts w) = diffed w"
  by (induction wts arbitrary: w) simp_all

lemma diffed_emitAll:
  "diffed (emitAll es w)
     = (forEachCalls (effects w) @ forEachCalls es, addedKeys (effects w) @ addedKeys es, idle w)"
proof (induction es arbitrary: w)
  case Nil then show ?case by (simp add: diffed_def)
next
  case (Cons e es)
  show ?case by (cases e) (simp_all add: Cons.IH emit_def)
qed

lemma change_events_plain [simp]:
  "forEachCalls (map (\<lambda>(a, b, c, d). EmitChange a b c d) xs) = []"
  "addedKeys (map (\<lambda>(a, b, c, d). EmitChange a b c d) xs) = []"
  by (induction xs) auto

lemma remove_events_plain [simp]:
  "forEachCalls (map (\<lambda>k. EmitRemove k (f k)) ks) = []"
  "addedKeys (map (\<lambda>k. EmitRemove k (f k)) ks) = []"
  by (induction ks) auto

lemma add_events_keys [simp]:
  "forEachCalls (map (\<lambda>k. EmitAdd k (f k)) ks) = []"
  "addedKeys (map (\<lambda>k. EmitAdd k (f k)) ks) = ks"
  by (induction ks) auto

lemma diffed_emitEvents:
  "diffed (emitEvents w0 cur keys changed w)
     = (forEachCalls (effects w),
        addedKeys (effects w) @ (if listeningAdd w then newKeysOf w0 keys else []), idle w)"
proof -
  define w1 where "w1 = (if listeningIteration w
         \<and> length changed + length (goneKeysOf w0 keys) + length (newKeysOf w0 keys) \<noteq> 0
      then runWaiters cur (waiters w)
             (emit (EmitIteration keys (newKeysOf w0 keys) (goneKeysOf w0 keys) cur
                      (map (findFromNew w0 cur keys) (newKeysOf w0 keys))
                      (map (findFromLast w0) (goneKeysOf w0 keys))) w)
      else w)"
  define w2 where "w2 = (if listeningChange w1
      then emitAll (map (\<lambda>(oldNode, newNode, oldKey, newKey).
                           EmitChange oldNode newNode oldKey newKey) changed) w1
      else w1)"
  define w3 where "w3 = (if listeningRemove w2
      then emitAll (map (\<lambda>key. EmitRemove key (findFromLast w0 key)) (goneKeysOf w0 keys)) w2
      else w2)"
  have r: "emitEvents w0 cur keys changed w
      = (if listeningAdd w3
         then emitAll (map (\<lambda>key. EmitAdd key (findFromNew w0 cur keys key))
                (newKeysOf w0 keys)) w3
         else w3)"
    by (simp add: emitEvents_def Let_def w1_def w2_def w3_def)
  have d1: "diffed w1 = diffed w"
    by (simp add: w1_def diffed_emit) (simp add: diffed_def)
  have s1: "stable w1 = stable w" by (simp add: w1_def)
  have d2: "diffed w2 = diffed w"
    using d1 by (simp add: w2_def diffed_emitAll) (simp add: diffed_def)
  have s2: "stable w2 = stable w" using s1 by (simp add: w2_def)
  have d3: "diffed w3 = diffed w"
    using d2 by (simp add: w3_def diffed_emitAll) (simp add: diffed_def)
  have s3: "stable w3 = stable w" using s2 by (simp add: w3_def)
  have la: "listeningAdd w3 = listeningAdd w" by (rule stable_fields(14) [OF s3])
  from d3 have f: "forEachCalls (effects w3) = forEachCalls (effects w)"
    "addedKeys (effects w3) = addedKeys (effects w)" "idle w3 = idle w"
    by (simp_all add: diffed_def)
  show ?thesis
  proof (cases "listeningAdd w")
    case True
    with r la f show ?thesis by (simp add: diffed_emitAll)
  next
    case False
    with r la f show ?thesis by (simp add: diffed_def)
  qed
qed

lemma diffed_updateFirst: "updateFirst cur w = Inr w' \<Longrightarrow> diffed w' = diffed w"
  by (auto simp: updateFirst_def split: jsval.splits dest: diffed_rebind)

lemma diffed_promptSingleMode [simp]: "diffed (promptSingleMode cur w) = diffed w"
  by (auto simp: promptSingleMode_def Let_def diffed_def emit_def split: prod.splits)

lemma diffed_storeGeneration [simp]: "diffed (storeGeneration cur keys maps w) = diffed w"
  by (simp add: diffed_def storeGeneration_def)

lemma newKeysOf_stable:
  assumes "stable w' = stable w"
  shows "newKeysOf w' = newKeysOf w"
proof (intro ext)
  fix keys
  from stable_fields(1,5) [OF assms] show "newKeysOf w' keys = newKeysOf w keys"
    by (simp add: newKeysOf_def)
qed

lemma goneKeysOf_stable:
  assumes "stable w' = stable w"
  shows "goneKeysOf w' = goneKeysOf w"
proof (intro ext)
  fix keys
  from stable_fields(1,5) [OF assms] show "goneKeysOf w' keys = goneKeysOf w keys"
    by (simp add: goneKeysOf_def)
qed

lemma removalOf_stable:
  assumes "stable w' = stable w"
  shows "removalOf w' = removalOf w"
proof (intro ext)
  fix k
  from stable_fields(1-5) [OF assms] show "removalOf w' k = removalOf w k"
    by (simp add: removalOf_def findFromLast_def)
qed

lemma normal_pass_diffs:
  assumes "normalModeWatcherCallback cur w = Inr w'"
  shows "map calledKey (forEachCalls (effects w'))
       = map calledKey (forEachCalls (effects w))
         @ (if useForeachFn w = None then [] else newKeysOf w (thisKeyListOf w cur))"
    and "addedKeys (effects w')
       = addedKeys (effects w) @ (if listeningAdd w then newKeysOf w (thisKeyListOf w cur) else [])"
    and "idle w' = idle w @ map (removalOf w) (goneKeysOf w (thisKeyListOf w cur))"
    and "lastKeyList w' = thisKeyListOf w cur" and "lastNodeList w' = cur"
proof -
  let ?keys = "thisKeyListOf w cur"
  let ?w1 = "warnRepeatedKeys ?keys w"
  let ?w2 = "scheduleRemovals (goneKeysOf ?w1 ?keys) ?w1"
  from assms obtain w3 maps w4 w7 where
    k: "keyIsNew cur ?keys ?w2 = Inr (w3, maps)"
    and c: "changeNodes (changedNodesOf w3 cur ?keys) w3 = Inr w4"
    and u: "updateFirst cur
       (emitEvents w4 cur ?keys (changedNodesOf w3 cur ?keys)
          (storeGeneration cur ?keys
             (copySameKeys w4 (oldSameKeysOf w4 ?keys) (newSameKeysOf w4 ?keys) maps) w4)) = Inr w7"
    and w': "w' = promptSingleMode cur w7"
    by (rule normal_pass_steps)
  let ?w5 = "storeGeneration cur ?keys
             (copySameKeys w4 (oldSameKeysOf w4 ?keys) (newSameKeysOf w4 ?keys) maps) w4"
  have s1: "stable ?w1 = stable w" by simp
  have s2: "stable ?w2 = stable w" by simp
  have s3: "stable w3 = stable w" using stable_keyIsNew [OF k] by simp
  have s4: "stable w4 = stable w" using stable_changeNodes [OF c] s3 by simp
  have d2: "diffed ?w2 = (forEachCalls (effects w), addedKeys (effects w),
       idle w @ map (removalOf w) (goneKeysOf w ?keys))"
    using diffed_fields [OF diffed_warnRepeatedKeys [of ?keys w]]
    by (simp add: scheduleRemovals_idle goneKeysOf_stable [OF s1] removalOf_stable [OF s1])
       (simp add: diffed_def)
  from diffed_keyIsNew [OF k] obtain as where
    as: "map calledKey as = (if useForeachFn ?w2 = None then [] else newKeysOf ?w2 ?keys)"
      "diffed w3 = (forEachCalls (effects ?w2) @ as, addedKeys (effects ?w2), idle ?w2)" by blast
  have uf: "useForeachFn ?w2 = useForeachFn w" by (rule stable_fields(8) [OF s2])
  from as(1) uf have as1: "map calledKey as = (if useForeachFn w = None then [] else newKeysOf w ?keys)"
    by (simp add: newKeysOf_stable [OF s2])
  from as(2) d2 have d3: "diffed w3 = (forEachCalls (effects w) @ as, addedKeys (effects w),
       idle w @ map (removalOf w) (goneKeysOf w ?keys))"
    by (simp add: diffed_def)
  from diffed_changeNodes [OF c] d3 have d4: "diffed w4 = (forEachCalls (effects w) @ as,
       addedKeys (effects w), idle w @ map (removalOf w) (goneKeysOf w ?keys))" by simp
  have la: "listeningAdd ?w5 = listeningAdd w"
    using stable_fields(14) [OF s4] by (simp add: storeGeneration_def)
  have d5: "diffed ?w5 = diffed w4" by simp
  from diffed_updateFirst [OF u] have "diffed w7
     = diffed (emitEvents w4 cur ?keys (changedNodesOf w3 cur ?keys) ?w5)" .
  also have "\<dots> = (forEachCalls (effects ?w5),
        addedKeys (effects ?w5) @ (if listeningAdd ?w5 then newKeysOf w4 ?keys else []), idle ?w5)"
    by (rule diffed_emitEvents)
  finally have d7: "diffed w7 = (forEachCalls (effects w) @ as,
       addedKeys (effects w) @ (if listeningAdd w then newKeysOf w ?keys else []),
       idle w @ map (removalOf w) (goneKeysOf w ?keys))"
    using diffed_fields [OF d5] d4 la by (simp add: newKeysOf_stable [OF s4] diffed_def)
  have d': "diffed w' = diffed w7" using w' by simp
  from diffed_fields [OF d'] d7 as1 show "map calledKey (forEachCalls (effects w'))
       = map calledKey (forEachCalls (effects w))
         @ (if useForeachFn w = None then [] else newKeysOf w ?keys)"
    by (simp add: diffed_def)
  from diffed_fields [OF d'] d7 show "addedKeys (effects w')
       = addedKeys (effects w) @ (if listeningAdd w then newKeysOf w ?keys else [])"
    by (simp add: diffed_def)
  from diffed_fields [OF d'] d7 show "idle w' = idle w @ map (removalOf w) (goneKeysOf w ?keys)"
    by (simp add: diffed_def)
  have "stable w7 = stable (emitEvents w4 cur ?keys (changedNodesOf w3 cur ?keys) ?w5)"
    by (rule stable_updateFirst [OF u])
  then have s7: "stable w7 = stable ?w5" by simp
  have "lastKeyList w' = lastKeyList w7" "lastNodeList w' = lastNodeList w7"
    using w' by (auto simp: promptSingleMode_def Let_def emit_def split: prod.splits)
  with stable_fields(1,2) [OF s7]
  show "lastKeyList w' = ?keys" "lastNodeList w' = cur" by (simp_all add: storeGeneration_def)
qed

lemma diffed_applyRemove [simp]: "diffed (applyRemove c a w) = diffed w"
  by (simp add: applyRemove_def diffed_emit split: option.splits) (simp add: diffed_def)

lemma diffed_bindFirst: "bindFirst v w = Inr w' \<Longrightarrow> diffed w' = diffed w"
  by (auto simp: bindFirst_def split: sum.splits if_splits jsval.splits dest!: diffed_rebind)

lemma diffed_valueIsGone: "valueIsGone w = Inr w' \<Longrightarrow> diffed w' = diffed w"
proof -
  assume a: "valueIsGone w = Inr w'"
  let ?w1 = "applyRemove (singleModeCallback w) (singleModeLastValue w) w"
  from a obtain w2 where
    r: "(if instanceofNode (singleModeLastValue ?w1)
         then rebind (firstVirtualNode ?w1) None ?w1 else Inr ?w1) = Inr w2"
    and w': "w' = (emit (EmitRemove VUndefined (singleModeLastValue w2)) w2)
                  \<lparr> singleModeLastValue := VUndefined, singleModeHasLastValue := False \<rparr>"
    by (auto simp: valueIsGone_def Let_def split: sum.splits)
  from r have "diffed w2 = diffed ?w1" by (auto split: if_splits dest: diffed_rebind)
  then have "diffed w2 = diffed w" by simp
  with w' show ?thesis by (simp add: diffed_emit) (simp add: diffed_def)
qed

lemma diffed_valueHasChanged [simp]: "diffed (valueHasChanged v w) = diffed w"
proof -
  have "diffed (applyTargetChange (singleModeCallback w) v (singleModeLastValue w) w) = diffed w"
    by simp
  note f = diffed_fields [OF this]
  show ?thesis by (simp add: valueHasChanged_def diffed_def emit_def f)
qed

lemma single_pass_diffs:
  assumes "singleModeWatcherCallback v w = Inr w'" "singleModeHasLastValue w"
  shows "diffed w' = diffed w"
proof -
  from assms(1) obtain w1 where b: "bindFirst v w = Inr w1"
    by (auto simp: singleModeWatcherCallback_def split: sum.splits)
  from hasLast_bindFirst [OF b] assms(2) have h: "singleModeHasLastValue w1" by simp
  note d1 = diffed_bindFirst [OF b]
  show ?thesis
  proof (cases "isNil v")
    case True
    with assms(1) b h have "valueIsGone w1 = Inr w'" by (simp add: singleModeWatcherCallback_def)
    from diffed_valueIsGone [OF this] d1 show ?thesis by simp
  next
    case False
    with assms(1) b h have "w' = valueHasChanged v w1 \<or> w' = w1"
      by (auto simp: singleModeWatcherCallback_def split: if_splits)
    with d1 show ?thesis by auto
  qed
qed

text \<open>
  C9.  \<open>stopWatch\<close> clears the watching flag and changes nothing else: the retained
  generation (key list, node list, callback map, handle map) and the single-mode
  last-value state are as before.  So the pass that a later \<open>startWatch\<close> runs diffs the
  next query result against the generation seen before the stop.  With single mode off it
  stores the next generation; it calls the \<open>useForeach\<close> function (when there is one)
  and emits \<open>onAdd\<close> (when somebody listens) exactly for the keys that are new against
  the key list from before the stop, not for every current Target; it hands over for
  removal exactly the keys of that list that are gone; and, for a symmetric and transitive
  key comparer and a handle map ordered as every pass leaves it, a key that stays keeps
  the handle it had before the stop.  With single mode on and a last value retained, it
  neither calls the \<open>useForeach\<close> function nor emits \<open>onAdd\<close>.
\<close>

theorem stopWatch_keeps_generation_for_next_start:
  assumes "startWatch thisNodes (stopWatch w) = Inr w'"
  shows "(stopWatch w)\<lparr> isWatching := isWatching w \<rparr> = w
    \<and> \<not> isWatching (stopWatch w)
    \<and> lastKeyList (stopWatch w) = lastKeyList w
    \<and> lastNodeList (stopWatch w) = lastNodeList w
    \<and> lastCallbackMap (stopWatch w) = lastCallbackMap w
    \<and> lastVirtualNodesMap (stopWatch w) = lastVirtualNodesMap w
    \<and> singleModeLastValue (stopWatch w) = singleModeLastValue w
    \<and> singleModeHasLastValue (stopWatch w) = singleModeHasLastValue w
    \<and> singleModeCallback (stopWatch w) = singleModeCallback w
    \<and> (\<not> singleMode w \<longrightarrow>
         (\<exists>cur. thisNodes = VArr cur
            \<and> lastKeyList w' = thisKeyListOf w cur \<and> lastNodeList w' = cur
            \<and> map calledKey (forEachCalls (effects w'))
                = map calledKey (forEachCalls (effects w))
                  @ (if useForeachFn w = None then [] else newKeysOf w (thisKeyListOf w cur))
            \<and> addedKeys (effects w')
                = addedKeys (effects w)
                  @ (if listeningAdd w then newKeysOf w (thisKeyListOf w cur) else [])
            \<and> idle w' = idle w @ map (removalOf w) (goneKeysOf w (thisKeyListOf w cur))
            \<and> (symp (keyComparer w) \<and> transp (keyComparer w) \<and> handleMapOrdered w \<longrightarrow>
                 (\<forall>k. hasKey (keyComparer w) k (map fst (lastVirtualNodesMap w))
                      \<and> hasKey (keyComparer w) k (thisKeyListOf w cur)
                    \<longrightarrow> fst (getVirtualNodeByKey k w') = fst (getVirtualNodeByKey k w)))))
    \<and> (singleMode w \<and> singleModeHasLastValue w \<longrightarrow>
         forEachCalls (effects w') = forEachCalls (effects w)
         \<and> addedKeys (effects w') = addedKeys (effects w))"
proof -
  let ?w0 = "w\<lparr> isWatching := True,
       warning_forget_watch := (warning_forget_watch w)\<lparr> ignored := True \<rparr>,
       checkerRuns := Suc (checkerRuns w) \<rparr>"
  have frame: "(stopWatch w)\<lparr> isWatching := isWatching w \<rparr> = w
    \<and> \<not> isWatching (stopWatch w)
    \<and> lastKeyList (stopWatch w) = lastKeyList w
    \<and> lastNodeList (stopWatch w) = lastNodeList w
    \<and> lastCallbackMap (stopWatch w) = lastCallbackMap w
    \<and> lastVirtualNodesMap (stopWatch w) = lastVirtualNodesMap w
    \<and> singleModeLastValue (stopWatch w) = singleModeLastValue w
    \<and> singleModeHasLastValue (stopWatch w) = singleModeHasLastValue w
    \<and> singleModeCallback (stopWatch w) = singleModeCallback w"
    by (simp add: stopWatch_def)
  have d0: "diffed ?w0 = diffed w" by simp
  have multi: "\<exists>cur. thisNodes = VArr cur
            \<and> lastKeyList w' = thisKeyListOf w cur \<and> lastNodeList w' = cur
            \<and> map calledKey (forEachCalls (effects w'))
                = map calledKey (forEachCalls (effects w))
                  @ (if useForeachFn w = None then [] else newKeysOf w (thisKeyListOf w cur))
            \<and> addedKeys (effects w')
                = addedKeys (effects w)
                  @ (if listeningAdd w then newKeysOf w (thisKeyListOf w cur) else [])
            \<and> idle w' = idle w @ map (removalOf w) (goneKeysOf w (thisKeyListOf w cur))
            \<and> (symp (keyComparer w) \<and> transp (keyComparer w) \<and> handleMapOrdered w \<longrightarrow>
                 (\<forall>k. hasKey (keyComparer w) k (map fst (lastVirtualNodesMap w))
                      \<and> hasKey (keyComparer w) k (thisKeyListOf w cur)
                    \<longrightarrow> fst (getVirtualNodeByKey k w') = fst (getVirtualNodeByKey k w)))"
    if m: "\<not> singleMode w"
  proof -
    from assms m obtain cur where cur: "thisNodes = VArr cur"
      and pass: "normalModeWatcherCallback cur ?w0 = Inr w'"
      by (auto simp: startWatch_def stopWatch_def watcherChecker_def Let_def split: jsval.splits)
    have k: "thisKeyListOf ?w0 cur = thisKeyListOf w cur" by (simp add: thisKeyListOf_def)
    have n: "newKeysOf ?w0 = newKeysOf w" by (simp add: newKeysOf_def fun_eq_iff)
    have g: "goneKeysOf ?w0 = goneKeysOf w" by (simp add: goneKeysOf_def fun_eq_iff)
    have r: "removalOf ?w0 = removalOf w" by (simp add: removalOf_def findFromLast_def fun_eq_iff)
    have o: "handleMapOrdered ?w0 = handleMapOrdered w" by (simp add: handleMapOrdered_def)
    have v: "\<And>k. fst (getVirtualNodeByKey k ?w0) = fst (getVirtualNodeByKey k w)"
      by (simp add: getVirtualNodeByKey_def)
    note p = normal_pass_diffs [OF pass]
    have keep: "fst (getVirtualNodeByKey k w') = fst (getVirtualNodeByKey k w)"
      if "symp (keyComparer w)" "transp (keyComparer w)" "handleMapOrdered w"
        "hasKey (keyComparer w) k (map fst (lastVirtualNodesMap w))"
        "hasKey (keyComparer w) k (thisKeyListOf w cur)" for k
      using pass_keeps_handle(1) [of ?w0 k cur w'] that pass k o v by simp
    from p diffed_fields [OF d0] k n g r keep cur show ?thesis by simp
  qed
  have single: "forEachCalls (effects w') = forEachCalls (effects w)
         \<and> addedKeys (effects w') = addedKeys (effects w)"
    if s: "singleMode w" "singleModeHasLastValue w"
  proof -
    from assms s(1) have "singleModeWatcherCallback thisNodes ?w0 = Inr w'"
      by (simp add: startWatch_def stopWatch_def watcherChecker_def Let_def)
    from single_pass_diffs [OF this] s(2) d0 show ?thesis by (simp add: diffed_def)
  qed
  from frame multi single show ?thesis by blast
qed

lemma example_stop_start:
  "\<exists>w1 w2. startWatch (VArr [VNode (Doc 1)]) exampleForEach = Inr w1
     \<and> startWatch (VArr [VNode (Doc 1), VNode (Doc 2)]) (stopWatch w1) = Inr w2
     \<and> \<not> singleMode w1 \<and> useForeachFn w1 \<noteq> None \<and> mapNodeToKey w1 = None
     \<and> keyComparer w1 = defaultEqualityComparer
     \<and> lastKeyList w1 = [VNode (Doc 1)]
     \<and> map calledKey (forEachCalls (effects w1)) = [VNode (Doc 1)]"
  by (simp add: exampleForEach_def useForeach_def exampleDocument_def startWatch_def stopWatch_def
      watcherChecker_def pass_defs proxy_defs dom_defs Let_def)

theorem stopWatch_keeps_generation_for_next_start_witness:
  "\<exists>w1 w2. startWatch (VArr [VNode (Doc 1)]) exampleForEach = Inr w1
     \<and> startWatch (VArr [VNode (Doc 1), VNode (Doc 2)]) (stopWatch w1) = Inr w2
     \<and> map calledKey (forEachCalls (effects w1)) = [VNode (Doc 1)]
     \<and> map calledKey (forEachCalls (effects w2)) = [VNode (Doc 1), VNode (Doc 2)]"
proof -
  from example_stop_start obtain w1 where
    "\<exists>w2. startWatch (VArr [VNode (Doc 1)]) exampleForEach = Inr w1
     \<and> startWatch (VArr [VNode (Doc 1), VNode (Doc 2)]) (stopWatch w1) = Inr w2
     \<and> \<not> singleMode w1 \<and> useForeachFn w1 \<noteq> None \<and> mapNodeToKey w1 = None
     \<and> keyComparer w1 = defaultEqualityComparer
     \<and> lastKeyList w1 = [VNode (Doc 1)]
     \<and> map calledKey (forEachCalls (effects w1)) = [VNode (Doc 1)]" ..
  then obtain w2 where all:
    "startWatch (VArr [VNode (Doc 1)]) exampleForEach = Inr w1
     \<and> startWatch (VArr [VNode (Doc 1), VNode (Doc 2)]) (stopWatch w1) = Inr w2
     \<and> \<not> singleMode w1 \<and> useForeachFn w1 \<noteq> None \<and> mapNodeToKey w1 = None
     \<and> keyComparer w1 = defaultEqualityComparer
     \<and> lastKeyList w1 = [VNode (Doc 1)]
     \<and> map calledKey (forEachCalls (effects w1)) = [VNode (Doc 1)]" ..
  then have a: "startWatch (VArr [VNode (Doc 1)]) exampleForEach = Inr w1"
    and b: "startWatch (VArr [VNode (Doc 1), VNode (Doc 2)]) (stopWatch w1) = Inr w2"
    and f: "\<not> singleMode w1" "useForeachFn w1 \<noteq> None" "mapNodeToKey w1 = None"
      "keyComparer w1 = defaultEqualityComparer" "lastKeyList w1 = [VNode (Doc 1)]"
    and c: "map calledKey (forEachCalls (effects w1)) = [VNode (Doc 1)]"
    by simp_all
  from stopWatch_keeps_generation_for_next_start [OF b] f c
  have "map calledKey (forEachCalls (effects w2)) = [VNode (Doc 1), VNode (Doc 2)]"
    by (simp add: thisKeyListOf_def newKeysOf_def differenceWith_def arrayIncludesWith_def
        defaultEqualityComparer_def)
  with a b c show ?thesis by (intro exI [of _ w1] exI [of _ w2]) simp
qed

section \<open>Effects recorded by a handle\<close>

lemma step1:
  assumes "el_styled (elems d (Doc a))"
  shows "bindE (freshBound (Doc a) d) (styleAndListen k v param) = Inr
     (\<lparr> isDestroyed = False, virtualBefore = None, virtualBeforeShadow = None,
           current = Some (Doc a), virtualAfter = None, virtualAfterShadow = None,
           changes = [AGet ''style'', AModifyStyle k v (el_style (elems d (Doc a)) k),
                      AGet ''addEventListener'', ACallMethods ''addEventListener'' param VProxy],
           observer = None \<rparr>,
      addEventListener (Doc a) param
        (updElem (Doc a) (\<lambda>e. e\<lparr> el_style := (el_style e)(k := v) \<rparr>) (snd (createElement d))))"
  using assms
  by (simp add: bindE_def freshBound_def styleAndListen_def DomProxy_def setRealCurrent_def
      undoEffects_def redoEffects_def setStyle_def callMethod_def getCurrent_def trapGet_def
      methodNames_def push_def invoke_def createElement_def updElem_def)

lemma undoCall_listeners:
  assumes "undoCall next attr param thisArg p d = Inr (read, d')"
  shows "set (el_listeners (elems d' n)) \<subseteq> set (el_listeners (elems d n))"
    and "attr = ''addEventListener'' \<Longrightarrow> current p = Some c
         \<Longrightarrow> listenerOf param \<notin> set (el_listeners (elems d' c))"
  using assms
  by (auto simp: undoCall_def removeEventListener_def updElem_def removeChild_def detach_def
      split: if_splits option.splits sum.splits prod.splits jsval.splits)

lemma undoStyle_listeners [simp]:
  "el_listeners (elems (undoStyle name v p d) n) = el_listeners (elems d n)"
  by (simp add: undoStyle_def updElem_def split: option.splits)

lemma undoLoop_listeners:
  "undoLoop next todo p d = Inr (p', d')
   \<Longrightarrow> set (el_listeners (elems d' n)) \<subseteq> set (el_listeners (elems d n))"
proof (induction "next" todo p d rule: undoLoop.induct)
  case (2 nextCurrent attr param thisArg todo p d)
  from "2.prems" obtain read d1 where
    u: "undoCall nextCurrent attr param thisArg p d = Inr (read, d1)"
    by (auto split: sum.splits)
  from undoCall_listeners(1) [OF u] have s1:
    "set (el_listeners (elems d1 n)) \<subseteq> set (el_listeners (elems d n))" .
  show ?case
  proof (cases read)
    case True
    with "2.prems" u have "undoLoop nextCurrent (todo @ [AGet ''0'']) (push (AGet ''0'') p) d1 = Inr (p', d')"
      by simp
    from "2.IH"(1) [OF u refl True this] s1 show ?thesis by blast
  next
    case False
    with "2.prems" u have "undoLoop nextCurrent todo p d1 = Inr (p', d')" by simp
    from "2.IH"(2) [OF u refl False this] s1 show ?thesis by blast
  qed
qed auto

lemma current_push [simp]: "current (push a p) = current p"
  by (simp add: push_def)

lemma undoLoop_removes_listener:
  "undoLoop next todo p d = Inr (p', d') \<Longrightarrow> current p = Some c
   \<Longrightarrow> ACallMethods ''addEventListener'' param thisArg \<in> set todo
   \<Longrightarrow> listenerOf param \<notin> set (el_listeners (elems d' c))"
proof (induction "next" todo p d rule: undoLoop.induct)
  case (1 nextCurrent p d)
  then show ?case by simp
next
  case (2 nextCurrent attr prm ta todo p d)
  from "2.prems"(1) obtain read d1 where
    u: "undoCall nextCurrent attr prm ta p d = Inr (read, d1)"
    by (auto split: sum.splits)
  let ?todo = "if read then todo @ [AGet ''0''] else todo"
  let ?p = "if read then push (AGet ''0'') p else p"
  from "2.prems"(1) u have l: "undoLoop nextCurrent ?todo ?p d1 = Inr (p', d')"
    by (simp split: if_splits)
  have cur: "current ?p = Some c" using "2.prems"(2) by simp
  show ?case
  proof (cases "attr = ''addEventListener'' \<and> prm = param")
    case True
    with undoCall_listeners(2) [OF u _ "2.prems"(2)]
    have "listenerOf param \<notin> set (el_listeners (elems d1 c))" by simp
    with undoLoop_listeners [OF l, of c] show ?thesis by blast
  next
    case False
    with "2.prems"(3) have m: "ACallMethods ''addEventListener'' param thisArg \<in> set ?todo"
      by auto
    show ?thesis
    proof (cases read)
      case True
      with l cur m "2.IH"(1) [OF u refl True] show ?thesis by simp
    next
      case False
      with l cur m "2.IH"(2) [OF u refl False] show ?thesis by simp
    qed
  qed
qed auto

lemma undo_removes_registered_listeners:
  assumes "undoEffects next p d = Inr (p', d')" "current p = Some c"
    and "ACallMethods ''addEventListener'' param thisArg \<in> set (changes p)"
  shows "listenerOf param \<notin> set (el_listeners (elems d' c))"
  using assms unfolding undoEffects_def by (rule undoLoop_removes_listener)

lemma undoneStyle_get [simp]: "undoneStyle name (log @ [AGet k]) v = undoneStyle name log v"
  by (induction name log v rule: undoneStyle.induct) simp_all

lemma undoCall_style:
  assumes "undoCall next attr param thisArg p d = Inr (read, d')"
  shows "el_style (elems d' n) = el_style (elems d n)" "el_styled (elems d' n) = el_styled (elems d n)"
  using assms
  by (auto simp: undoCall_def removeEventListener_def updElem_def removeChild_def detach_def
      split: if_splits option.splits sum.splits prod.splits jsval.splits)

lemma undoLoop_style:
  "undoLoop next todo p d = Inr (p', d') \<Longrightarrow> current p = Some c \<Longrightarrow> el_styled (elems d c)
   \<Longrightarrow> el_style (elems d' c) name = undoneStyle name todo (el_style (elems d c) name)"
proof (induction "next" todo p d rule: undoLoop.induct)
  case (1 nextCurrent p d)
  then show ?case by simp
next
  case (2 nextCurrent attr prm ta todo p d)
  from "2.prems"(1) obtain read d1 where
    u: "undoCall nextCurrent attr prm ta p d = Inr (read, d1)"
    by (auto split: sum.splits)
  note st = undoCall_style [OF u, of c]
  show ?case
  proof (cases read)
    case True
    with "2.prems"(1) u have l: "undoLoop nextCurrent (todo @ [AGet ''0'']) (push (AGet ''0'') p) d1 = Inr (p', d')"
      by simp
    from "2.IH"(1) [OF u refl True l] "2.prems"(2,3) st show ?thesis by simp
  next
    case False
    with "2.prems"(1) u have l: "undoLoop nextCurrent todo p d1 = Inr (p', d')" by simp
    from "2.IH"(2) [OF u refl False l] "2.prems"(2,3) st show ?thesis by simp
  qed
next
  case (3 nextCurrent n v originalValue todo p d)
  from "3.prems" have l: "undoLoop nextCurrent todo p (undoStyle n originalValue p d) = Inr (p', d')"
    by simp
  from "3.prems"(2,3) have
    a: "el_styled (elems (undoStyle n originalValue p d) c)"
    and b: "el_style (elems (undoStyle n originalValue p d) c) name
          = (if n = name then originalValue else el_style (elems d c) name)"
    by (simp_all add: undoStyle_def hasStyle_def updElem_def)
  from "3.IH" [OF l "3.prems"(2) a] b show ?case by simp
qed simp_all

lemma undo_restores_recorded_style:
  assumes "undoEffects next p d = Inr (p', d')" "current p = Some c" "el_styled (elems d c)"
  shows "el_style (elems d' c) name = undoneStyle name (changes p) (el_style (elems d c) name)"
  using assms unfolding undoEffects_def by (rule undoLoop_style)

text \<open>
  C3 (as amended).  Bind a new handle to a styled node \<open>A\<close>, assign a style property and
  register a listener through it, rebind it to another styled node \<open>B\<close> and then back to
  \<open>A\<close>: every step succeeds, and \<open>A\<close> ends with the style values and the listeners it
  had before the two rebinds (the assigned value, the registered listener).  A final
  \<open>destroy()\<close> leaves \<open>A\<close> as it is: it undoes nothing, so the listener stays on \<open>A\<close>.
\<close>

theorem rebind_round_trip_keeps_effects:
  assumes "a \<noteq> b" "el_styled (elems d (Doc a))" "el_styled (elems d (Doc b))"
    and "\<not> isNil (at param 1)"
  shows "\<exists>p1 d1 p3 d3.
      bindE (freshBound (Doc a) d) (styleAndListen k v param) = Inr (p1, d1)
    \<and> thereAndBack (Doc a) (Doc b) (p1, d1) = Inr (p3, d3)
    \<and> current p3 = Some (Doc a)
    \<and> el_style (elems d3 (Doc a)) = el_style (elems d1 (Doc a))
    \<and> set (el_listeners (elems d3 (Doc a))) = set (el_listeners (elems d1 (Doc a)))
    \<and> el_style (elems d3 (Doc a)) k = v
    \<and> listenerOf param \<in> set (el_listeners (elems d3 (Doc a)))
    \<and> elems (snd (destroy p3 d3)) (Doc a) = elems d3 (Doc a)"
  using assms
  by (auto simp add: handle_run_defs)

theorem rebind_round_trip_keeps_effects_witness:
  "(1::nat) \<noteq> 2 \<and> el_styled (elems exampleDocument (Doc 1)) \<and> el_styled (elems exampleDocument (Doc 2))
   \<and> \<not> isNil (at [VStr ''click'', VObj 7] 1)
   \<and> (\<exists>p1 d1 p3 d3.
      bindE (freshBound (Doc 1) exampleDocument)
        (styleAndListen ''color'' ''red'' [VStr ''click'', VObj 7]) = Inr (p1, d1)
    \<and> thereAndBack (Doc 1) (Doc 2) (p1, d1) = Inr (p3, d3)
    \<and> el_style (elems d3 (Doc 1)) ''color'' = ''red''
    \<and> listenerOf [VStr ''click'', VObj 7] \<in> set (el_listeners (elems d3 (Doc 1))))"
proof -
  have h: "(1::nat) \<noteq> 2" "el_styled (elems exampleDocument (Doc 1))"
    "el_styled (elems exampleDocument (Doc 2))" "\<not> isNil (at [VStr ''click'', VObj 7] 1)"
    by (simp_all add: exampleDocument_def blankElement_def isNil_def at_def)
  from rebind_round_trip_keeps_effects [OF h, of "''color''" "''red''"] h show ?thesis by blast
qed

text \<open>
  C3 as stated fails: after the round trip of \<open>exampleRoundTrip\<close> and \<open>destroy()\<close> the
  listener registered through the handle is still on node 1.
\<close>

theorem destroy_leaves_listener:
  "map_sum id (listenersAfterDestroy (Doc 1)) exampleRoundTrip
     = Inr [(VStr ''click'', VObj 7, False)]"
  by (simp add: exampleRoundTrip_def listenersAfterDestroy_def exampleDocument_def
      handle_run_defs blankElement_def listenerOf_def at_def isNil_def)

text \<open>
  C6.  The claim expects a child appended through the forwarding reference to be removed
  from the bound target when the handle is rebound to nothing.  A new handle bound to
  node 1, \<open>appendChild(node 2)\<close> through it, then \<open>realCurrent = null\<close>: node 2 is still
  a child of node 1, and the undo has only added a \<open>get "0"\<close> record to the log, the read
  of \<open>thisArg[0]\<close> on the forwarding reference.
\<close>

theorem unbind_keeps_appended_child:
  "map_sum id (childrenOf (Doc 1)) (appendThenUnbind (Doc 1) (Doc 2) exampleDocument)
     = Inr [Doc 2]
   \<and> map_sum id (\<lambda>st. changes (fst st)) (appendThenUnbind (Doc 1) (Doc 2) exampleDocument)
     = Inr [AGet ''appendChild'', ACallMethods ''appendChild'' [VNode (Doc 2)] VProxy, AGet ''0'']"
  by (simp add: appendThenUnbind_def childrenOf_def exampleDocument_def handle_run_defs
      blankElement_def at_def thisArg0_def appendChild_def detach_def)

end
